theory Spec2Isabelle
  imports Main "HOL-Library.Multiset"
begin

section \<open>Data model of rules.py\<close>

text \<open>
  The two enumerations of rules.py. Python keeps one namespace per enum class, HOL has one
  namespace for all constructors, so the members of \<open>ConfirmationStatus\<close> carry the
  prefix \<open>STATUS_\<close> where they would clash with a member of \<open>DataSource\<close>.
\<close>

datatype DataSource = FSIN | ROSSTAT | AUDIT_RU | MANUAL_CONFIRMED | MANUAL_UNCONFIRMED

datatype ConfirmationStatus = CONFIRMED | STATUS_MANUAL_CONFIRMED | STATUS_MANUAL_UNCONFIRMED

text \<open>
  Every exception the selection code can raise is a value:
  \<^item> \<open>EmptyInput\<close>: the \<open>ValueError\<close> raised for an empty list of data points;
  \<^item> \<open>UnknownSource\<close>: the \<open>ValueError\<close> of \<open>hierarchy_order.index(source)\<close>;
  \<^item> \<open>UnknownStatus\<close>: the \<open>ValueError\<close> of \<open>confirmation_order.index(status)\<close>;
  \<^item> \<open>UnmappedSource\<close>: the \<open>KeyError\<close> of \<open>SOURCE_TO_CONFIRMATION[source]\<close>;
  \<^item> \<open>MinOfEmpty\<close>: the \<open>ValueError\<close> of \<open>min\<close> over no keys;
  \<^item> \<open>MissingGroup\<close>: the \<open>KeyError\<close> of \<open>confirmation_groups[best_confirmation]\<close>;
  \<^item> \<open>NoFirstElement\<close>: the \<open>IndexError\<close> of \<open>xs[0]\<close> on an empty list;
  \<^item> \<open>NaiveAwareComparison\<close>: the \<open>TypeError\<close> of \<open><\<close> between a \<open>datetime\<close>
    without offset and one with an offset.
\<close>

datatype error =
  EmptyInput | UnknownSource | UnknownStatus | UnmappedSource
  | MinOfEmpty | MissingGroup | NoFirstElement | NaiveAwareComparison

subsection \<open>Timestamps\<close>

text \<open>
  The timestamp of a data point is a \<open>datetime\<close>. What \<open><\<close> reads of it is
  \<^item> the calendar and clock fields (year to microsecond), here one count of microseconds,
    ordered as the tuple of the fields is;
  \<^item> the \<open>tzinfo\<close> attribute, compared by identity: \<open>Naive\<close> is \<open>None\<close>,
    \<open>Aware k off\<close> is the \<open>k\<close>-th time zone object;
  \<^item> the value of \<open>utcoffset()\<close>, in microseconds: \<open>None\<close> for a naive datetime, and for
    an aware one what its zone answers for these fields and this \<open>fold\<close> (so two datetimes of
    one zone can have different offsets, and a zone may answer \<open>None\<close>).
\<close>

datatype tz = Naive | Aware nat "int option"

record datetime =
  wall_clock :: int
  zone :: tz

fun tzinfo :: "datetime \<Rightarrow> nat option" where
  "tzinfo d = (case zone d of Naive \<Rightarrow> None | Aware k off \<Rightarrow> Some k)"

fun utcoffset :: "datetime \<Rightarrow> int option" where
  "utcoffset d = (case zone d of Naive \<Rightarrow> None | Aware k off \<Rightarrow> off)"

text \<open>
  \<open>self < other\<close> on two datetimes. With one and the same \<open>tzinfo\<close> (both naive
  included) the fields are compared. Otherwise the offsets are read: with equal offsets the
  fields are compared again, with two different offsets the two instants in UTC are
  compared, and with one offset missing the comparison raises.
\<close>

definition datetime_lt :: "datetime \<Rightarrow> datetime \<Rightarrow> error + bool" where
  "datetime_lt self other =
     (if tzinfo self = tzinfo other then Inr (wall_clock self < wall_clock other)
      else if utcoffset self = utcoffset other then Inr (wall_clock self < wall_clock other)
      else
        (case (utcoffset self, utcoffset other) of
           (Some myoff, Some otoff) \<Rightarrow>
             Inr (wall_clock self - myoff < wall_clock other - otoff)
         | _ \<Rightarrow> Inl NaiveAwareComparison))"

text \<open>\<open>a < b\<close> on two integers never raises.\<close>

definition int_lt :: "nat \<Rightarrow> nat \<Rightarrow> error + bool" where
  "int_lt a b = Inr (a < b)"

text \<open>
  A data point is the dictionary with the keys \<open>'data'\<close>, \<open>'source'\<close> and
  \<open>'timestamp'\<close>. The payload is of any type.
\<close>

record 'v data_point =
  data :: 'v
  source :: DataSource
  timestamp :: datetime

section \<open>Python primitives used by the rules\<close>

definition bind_result :: "error + 'a \<Rightarrow> ('a \<Rightarrow> error + 'b) \<Rightarrow> error + 'b" where
  "bind_result m f = (case m of Inl e \<Rightarrow> Inl e | Inr x \<Rightarrow> f x)"

text \<open>\<open>xs.index(x)\<close>: the position of the first occurrence, no result when there is none.\<close>

fun list_index :: "'a list \<Rightarrow> 'a \<Rightarrow> nat option" where
  "list_index [] x = None"
| "list_index (y # ys) x = (if y = x then Some 0 else map_option Suc (list_index ys x))"

text \<open>\<open>xs[0]\<close>.\<close>

fun item0 :: "'a list \<Rightarrow> error + 'a" where
  "item0 [] = Inl NoFirstElement"
| "item0 (x # xs) = Inr x"

text \<open>
  \<open>min(xs, key=f)\<close>: one pass that keeps the element seen so far with the least key and
  replaces it only by a strictly smaller one; a key that raises ends the pass.
\<close>

fun min_scan :: "('a \<Rightarrow> error + nat) \<Rightarrow> 'a \<Rightarrow> nat \<Rightarrow> 'a list \<Rightarrow> error + 'a" where
  "min_scan f best best_key [] = Inr best"
| "min_scan f best best_key (x # xs) =
     (case f x of
        Inl e \<Rightarrow> Inl e
      | Inr k \<Rightarrow> if k < best_key then min_scan f x k xs else min_scan f best best_key xs)"

fun min_by_key :: "('a \<Rightarrow> error + nat) \<Rightarrow> 'a list \<Rightarrow> error + 'a" where
  "min_by_key f [] = Inl MinOfEmpty"
| "min_by_key f (x # xs) =
     (case f x of Inl e \<Rightarrow> Inl e | Inr k \<Rightarrow> min_scan f x k xs)"

text \<open>The keys of a list, computed left to right; the first key that raises ends it.\<close>

fun keys_of :: "('a \<Rightarrow> error + 'k) \<Rightarrow> 'a list \<Rightarrow> error + 'k list" where
  "keys_of f [] = Inr []"
| "keys_of f (x # xs) =
     (case f x of
        Inl e \<Rightarrow> Inl e
      | Inr k \<Rightarrow> (case keys_of f xs of Inl e \<Rightarrow> Inl e | Inr ks \<Rightarrow> Inr (k # ks)))"

subsection \<open>The list sort\<close>

text \<open>
  \<open>sorted\<close> compares with \<open><\<close> only, and a comparison that raises ends the sort with
  that exception. Which comparisons are made, and so what comes out when \<open><\<close> is not a
  consistent order, is the interpreter's algorithm, which is followed here as CPython has it
  for a list that is one run (fewer than 64 elements): the longest run at the start of the
  list is found, non-descending or strictly descending, a descending run is reversed, and
  each further element is put in its place in the sorted part by binary search. (Longer
  lists are cut into such runs, which are then merged; the outcome is the same stable sorted
  list whenever \<open><\<close> is a total preorder on the elements compared.)

  \<open>take_run lt descending prev xs\<close> is the part of \<open>xs\<close> that continues the run after
  \<open>prev\<close>, and the rest.
\<close>

fun take_run ::
  "('a \<Rightarrow> 'a \<Rightarrow> error + bool) \<Rightarrow> bool \<Rightarrow> 'a \<Rightarrow> 'a list \<Rightarrow> error + ('a list \<times> 'a list)" where
  "take_run lt descending prev [] = Inr ([], [])"
| "take_run lt descending prev (x # xs) =
     (case lt x prev of
        Inl e \<Rightarrow> Inl e
      | Inr b \<Rightarrow>
          if b = descending then
            (case take_run lt descending x xs of
               Inl e \<Rightarrow> Inl e
             | Inr (run, rest) \<Rightarrow> Inr (x # run, rest))
          else Inr ([], x # xs))"

text \<open>
  The binary search of the place of \<open>pivot\<close> between the positions \<open>l\<close> and \<open>r\<close> of the
  sorted part: to the left of the middle element when the pivot is less than it, to the
  right of it otherwise. The positions read are below \<open>r\<close>, which is at most the length.
\<close>

function bisect ::
  "('a \<Rightarrow> 'a \<Rightarrow> error + bool) \<Rightarrow> 'a \<Rightarrow> 'a list \<Rightarrow> nat \<Rightarrow> nat \<Rightarrow> error + nat" where
  "bisect lt pivot xs l r =
     (if l < r then
        (let p = l + (r - l) div 2 in
         case lt pivot (xs ! p) of
           Inl e \<Rightarrow> Inl e
         | Inr b \<Rightarrow> if b then bisect lt pivot xs l p else bisect lt pivot xs (p + 1) r)
      else Inr l)"
  by pat_completeness auto

termination bisect
  by (relation "measure (\<lambda>(lt, pivot, xs, l, r). r - l)") auto

declare bisect.simps [simp del]

fun binarysort ::
  "('a \<Rightarrow> 'a \<Rightarrow> error + bool) \<Rightarrow> 'a list \<Rightarrow> 'a list \<Rightarrow> error + 'a list" where
  "binarysort lt sorted_part [] = Inr sorted_part"
| "binarysort lt sorted_part (pivot # rest) =
     (case bisect lt pivot sorted_part 0 (length sorted_part) of
        Inl e \<Rightarrow> Inl e
      | Inr l \<Rightarrow> binarysort lt (take l sorted_part @ pivot # drop l sorted_part) rest)"

fun list_sort :: "('a \<Rightarrow> 'a \<Rightarrow> error + bool) \<Rightarrow> 'a list \<Rightarrow> error + 'a list" where
  "list_sort lt [] = Inr []"
| "list_sort lt [x] = Inr [x]"
| "list_sort lt (x0 # x1 # xs) =
     (case lt x1 x0 of
        Inl e \<Rightarrow> Inl e
      | Inr descending \<Rightarrow>
          (case take_run lt descending x1 xs of
             Inl e \<Rightarrow> Inl e
           | Inr (run, rest) \<Rightarrow>
               binarysort lt
                 (if descending then rev (x0 # x1 # run) else x0 # x1 # run) rest))"

text \<open>
  \<open>sorted(xs, key=f, reverse=r)\<close>: the keys are computed first, once per element and in
  order; with \<open>reverse\<close> the list is reversed before and after the sort, which keeps
  elements of equal key in their input order; the elements move with their keys and only
  keys are compared.
\<close>

definition sorted_builtin ::
  "('k \<Rightarrow> 'k \<Rightarrow> error + bool) \<Rightarrow> ('a \<Rightarrow> error + 'k) \<Rightarrow> bool \<Rightarrow> 'a list \<Rightarrow> error + 'a list" where
  "sorted_builtin lt key reverse xs =
     bind_result (keys_of key xs) (\<lambda>ks.
     bind_result
       (list_sort (\<lambda>a b. lt (fst a) (fst b))
          (if reverse then rev (zip ks xs) else zip ks xs))
       (\<lambda>sorted_pairs.
          Inr (map snd (if reverse then rev sorted_pairs else sorted_pairs))))"

text \<open>\<open>[x for x in xs if p(x)]\<close> with a condition that may raise.\<close>

fun comprehension_if :: "('a \<Rightarrow> error + bool) \<Rightarrow> 'a list \<Rightarrow> error + 'a list" where
  "comprehension_if p [] = Inr []"
| "comprehension_if p (x # xs) =
     (case p x of
        Inl e \<Rightarrow> Inl e
      | Inr b \<Rightarrow>
          (case comprehension_if p xs of
             Inl e \<Rightarrow> Inl e
           | Inr ys \<Rightarrow> Inr (if b then x # ys else ys)))"

section \<open>Source hierarchy and confirmation policy\<close>

definition hierarchy_order :: "DataSource list" where
  "hierarchy_order = [FSIN, ROSSTAT, AUDIT_RU, MANUAL_CONFIRMED, MANUAL_UNCONFIRMED]"

definition get_hierarchy_priority :: "DataSource \<Rightarrow> error + nat" where
  "get_hierarchy_priority src =
     (case list_index hierarchy_order src of None \<Rightarrow> Inl UnknownSource | Some i \<Rightarrow> Inr i)"

definition confirmation_order :: "ConfirmationStatus list" where
  "confirmation_order = [CONFIRMED, STATUS_MANUAL_CONFIRMED, STATUS_MANUAL_UNCONFIRMED]"

definition get_confirmation_priority :: "ConfirmationStatus \<Rightarrow> error + nat" where
  "get_confirmation_priority status =
     (case list_index confirmation_order status of
        None \<Rightarrow> Inl UnknownStatus
      | Some i \<Rightarrow> Inr i)"

definition SOURCE_TO_CONFIRMATION :: "(DataSource \<times> ConfirmationStatus) list" where
  "SOURCE_TO_CONFIRMATION =
     [(FSIN, CONFIRMED),
      (ROSSTAT, CONFIRMED),
      (AUDIT_RU, CONFIRMED),
      (MANUAL_CONFIRMED, STATUS_MANUAL_CONFIRMED),
      (MANUAL_UNCONFIRMED, STATUS_MANUAL_UNCONFIRMED)]"

definition get_confirmation_status :: "DataSource \<Rightarrow> error + ConfirmationStatus" where
  "get_confirmation_status src =
     (case map_of SOURCE_TO_CONFIRMATION src of
        None \<Rightarrow> Inl UnmappedSource
      | Some status \<Rightarrow> Inr status)"

definition compare_data_sources :: "DataSource \<Rightarrow> DataSource \<Rightarrow> error + int" where
  "compare_data_sources source1 source2 =
     bind_result (get_hierarchy_priority source1) (\<lambda>priority1.
     bind_result (get_hierarchy_priority source2) (\<lambda>priority2.
       if priority1 < priority2 then Inr (- 1)
       else if priority1 > priority2 then Inr 1
       else Inr 0))"

definition compare_confirmation_status ::
  "ConfirmationStatus \<Rightarrow> ConfirmationStatus \<Rightarrow> error + int" where
  "compare_confirmation_status status1 status2 =
     bind_result (get_confirmation_priority status1) (\<lambda>priority1.
     bind_result (get_confirmation_priority status2) (\<lambda>priority2.
       if priority1 < priority2 then Inr (- 1)
       else if priority1 > priority2 then Inr 1
       else Inr 0))"

section \<open>The selection\<close>

text \<open>
  \<open>confirmation_groups\<close> is a dictionary from status to a list of points. Its keys are
  iterated in insertion order, so it is an association list: a new status goes to the end
  with a one-point list, a point of a known status goes to the end of that status's list.
\<close>

type_synonym 'v groups = "(ConfirmationStatus \<times> 'v data_point list) list"

fun add_to_group :: "ConfirmationStatus \<Rightarrow> 'v data_point \<Rightarrow> 'v groups \<Rightarrow> 'v groups" where
  "add_to_group status point [] = [(status, [point])]"
| "add_to_group status point ((s, ps) # rest) =
     (if s = status then (s, ps @ [point]) # rest
      else (s, ps) # add_to_group status point rest)"

fun group_points :: "'v data_point list \<Rightarrow> 'v groups \<Rightarrow> error + 'v groups" where
  "group_points [] confirmation_groups = Inr confirmation_groups"
| "group_points (point # points) confirmation_groups =
     (case get_confirmation_status (source point) of
        Inl e \<Rightarrow> Inl e
      | Inr status \<Rightarrow> group_points points (add_to_group status point confirmation_groups))"

definition group_of :: "'v groups \<Rightarrow> ConfirmationStatus \<Rightarrow> error + 'v data_point list" where
  "group_of confirmation_groups status =
     (case map_of confirmation_groups status of
        None \<Rightarrow> Inl MissingGroup
      | Some ps \<Rightarrow> Inr ps)"

definition source_priority_of :: "'v data_point \<Rightarrow> error + nat" where
  "source_priority_of x = get_hierarchy_priority (source x)"

definition select_most_relevant_data :: "'v data_point list \<Rightarrow> error + 'v data_point" where
  "select_most_relevant_data data_points =
     (if data_points = [] then Inl EmptyInput
      else
        bind_result (group_points data_points []) (\<lambda>confirmation_groups.
        bind_result (min_by_key get_confirmation_priority (map fst confirmation_groups))
          (\<lambda>best_confirmation.
        bind_result (group_of confirmation_groups best_confirmation) (\<lambda>candidates.
          if length candidates = 1 then item0 candidates
          else
            bind_result (sorted_builtin int_lt source_priority_of False candidates)
              (\<lambda>source_priority_candidates.
            bind_result (item0 source_priority_candidates) (\<lambda>top.
            bind_result (source_priority_of top) (\<lambda>best_source_priority.
            bind_result
              (comprehension_if
                 (\<lambda>candidate.
                    bind_result (source_priority_of candidate)
                      (\<lambda>p. Inr (p = best_source_priority)))
                 source_priority_candidates)
              (\<lambda>best_source_candidates.
                if length best_source_candidates = 1 then item0 best_source_candidates
                else
                  bind_result
                    (sorted_builtin datetime_lt (\<lambda>x. Inr (timestamp x)) True
                       best_source_candidates)
                    (\<lambda>final_candidates. item0 final_candidates)))))))))"

section \<open>The selection as the specification words it\<close>

text \<open>
  The specification's reading of the tables, as total functions: the rank of a source is its
  position in the priority list, the status of a source is its entry of the confirmation
  map, the rank of a status is its position in the status list.
\<close>

fun spec_rank :: "DataSource \<Rightarrow> nat" where
  "spec_rank FSIN = 0"
| "spec_rank ROSSTAT = 1"
| "spec_rank AUDIT_RU = 2"
| "spec_rank MANUAL_CONFIRMED = 3"
| "spec_rank MANUAL_UNCONFIRMED = 4"

fun spec_confirmation_of :: "DataSource \<Rightarrow> ConfirmationStatus" where
  "spec_confirmation_of FSIN = CONFIRMED"
| "spec_confirmation_of ROSSTAT = CONFIRMED"
| "spec_confirmation_of AUDIT_RU = CONFIRMED"
| "spec_confirmation_of MANUAL_CONFIRMED = STATUS_MANUAL_CONFIRMED"
| "spec_confirmation_of MANUAL_UNCONFIRMED = STATUS_MANUAL_UNCONFIRMED"

fun spec_confirmation_rank :: "ConfirmationStatus \<Rightarrow> nat" where
  "spec_confirmation_rank CONFIRMED = 0"
| "spec_confirmation_rank STATUS_MANUAL_CONFIRMED = 1"
| "spec_confirmation_rank STATUS_MANUAL_UNCONFIRMED = 2"




section \<open>Notions used to state the properties\<close>

text \<open>
  The rank of the confirmation status of a source, as the selection computes it when it
  groups and then ranks the groups: the lookup in the confirmation map, then the position of
  the status.
\<close>

definition confirmation_priority_of_source :: "DataSource \<Rightarrow> error + nat" where
  "confirmation_priority_of_source src =
     bind_result (get_confirmation_status src) get_confirmation_priority"

text \<open>
  The points of a list that no point of the list outranks by its source, by the comparison
  of sources of the rules.
\<close>

definition top_ranked :: "'v data_point list \<Rightarrow> 'v data_point list" where
  "top_ranked dps =
     filter (\<lambda>p. \<forall>q \<in> set dps. compare_data_sources (source p) (source q) \<noteq> Inr 1) dps"

text \<open>
  Timestamps are comparable when \<open><\<close> raises on no two of them. They are consistently
  ordered when moreover ``not earlier than'' is transitive on them, which makes \<open><\<close> a
  total preorder on them.
\<close>

definition comparable :: "datetime list \<Rightarrow> bool" where
  "comparable ts \<longleftrightarrow>
     (\<forall>x \<in> set ts. \<forall>y \<in> set ts.
        (case datetime_lt x y of Inl e \<Rightarrow> False | Inr b \<Rightarrow> True))"


section \<open>Notions used in the proofs\<close>

text \<open>
  The list of a status in the dictionary of groups (empty for a missing status), the status
  of a point, the last steps of the selection on the points of the best source, the
  position of a timestamp among the timestamps of a list, and a point with another payload.
\<close>

definition members :: "'v groups \<Rightarrow> ConfirmationStatus \<Rightarrow> 'v data_point list" where
  "members g s = (case map_of g s of None \<Rightarrow> [] | Some ps \<Rightarrow> ps)"

definition status_of :: "'v data_point \<Rightarrow> ConfirmationStatus" where
  "status_of p = spec_confirmation_of (source p)"

definition pick_latest :: "'v data_point list \<Rightarrow> error + 'v data_point" where
  "pick_latest best_source_candidates =
     (if length best_source_candidates = 1 then item0 best_source_candidates
      else
        bind_result
          (sorted_builtin datetime_lt (\<lambda>x. Inr (timestamp x)) True best_source_candidates)
          (\<lambda>final_candidates. item0 final_candidates))"


definition with_payload :: "('a \<Rightarrow> 'b) \<Rightarrow> 'a data_point \<Rightarrow> 'b data_point" where
  "with_payload h p = \<lparr>data = h (data p), source = source p, timestamp = timestamp p\<rparr>"

section \<open>Example inputs\<close>

text \<open>
  Clock times are counted in microseconds from the midnight of the day of the example.
\<close>

definition hours :: "int \<Rightarrow> int" where
  "hours h = h * 3600000000"

definition naive_at :: "int \<Rightarrow> datetime" where
  "naive_at t = \<lparr>wall_clock = t, zone = Naive\<rparr>"

text \<open>
  Zone 0 is UTC. Zone 1 is a zone that leaves summer time during the day: the clock time
  01:30 occurs twice in it, first four hours behind UTC (\<open>fold=0\<close>), then five hours
  behind (\<open>fold=1\<close>).
\<close>

definition utc_at :: "int \<Rightarrow> datetime" where
  "utc_at t = \<lparr>wall_clock = t, zone = Aware 0 (Some 0)\<rparr>"



text \<open>
  \<open>test_data\<close> is the example of the demonstration block at the end of rules.py. The
  others: one manually confirmed point among unconfirmed ones, with the oldest timestamp and
  the only aware one; four points of one source with two equal latest timestamps (twice,
  with different payloads); points of automatically confirmed sources only.
\<close>

definition test_data :: "nat data_point list" where
  "test_data =
     [\<lparr>data = 100, source = MANUAL_UNCONFIRMED, timestamp = naive_at (hours 10)\<rparr>,
      \<lparr>data = 200, source = ROSSTAT, timestamp = naive_at (hours 9)\<rparr>,
      \<lparr>data = 150, source = FSIN, timestamp = naive_at (hours 8)\<rparr>]"

definition manual_data :: "nat data_point list" where
  "manual_data =
     [\<lparr>data = 1, source = MANUAL_UNCONFIRMED, timestamp = naive_at (hours 10)\<rparr>,
      \<lparr>data = 2, source = MANUAL_CONFIRMED, timestamp = utc_at (hours 1)\<rparr>,
      \<lparr>data = 3, source = MANUAL_UNCONFIRMED, timestamp = naive_at (hours 7)\<rparr>]"

definition tied_data :: "nat data_point list" where
  "tied_data =
     [\<lparr>data = 1, source = ROSSTAT, timestamp = naive_at (hours 5)\<rparr>,
      \<lparr>data = 2, source = ROSSTAT, timestamp = naive_at (hours 7)\<rparr>,
      \<lparr>data = 3, source = ROSSTAT, timestamp = naive_at (hours 7)\<rparr>,
      \<lparr>data = 4, source = ROSSTAT, timestamp = naive_at (hours 6)\<rparr>]"

definition tied_data_renamed :: "string data_point list" where
  "tied_data_renamed =
     [\<lparr>data = ''a'', source = ROSSTAT, timestamp = naive_at (hours 5)\<rparr>,
      \<lparr>data = ''b'', source = ROSSTAT, timestamp = naive_at (hours 7)\<rparr>,
      \<lparr>data = ''b'', source = ROSSTAT, timestamp = naive_at (hours 7)\<rparr>,
      \<lparr>data = ''c'', source = ROSSTAT, timestamp = naive_at (hours 6)\<rparr>]"


text \<open>
  Inputs with timestamps that \<open><\<close> does not order: a naive and an aware timestamp of one
  source, and the two occurrences of 01:30 of zone 1 together with 06:00 UTC, which lies
  between them, in three orders.
\<close>

definition mixed_data :: "nat data_point list" where
  "mixed_data =
     [\<lparr>data = 1, source = ROSSTAT, timestamp = naive_at (hours 9)\<rparr>,
      \<lparr>data = 2, source = ROSSTAT, timestamp = utc_at (hours 10)\<rparr>]"

definition mixed_data_fsin :: "nat data_point list" where
  "mixed_data_fsin =
     [\<lparr>data = 1, source = FSIN, timestamp = naive_at (hours 9)\<rparr>,
      \<lparr>data = 2, source = MANUAL_CONFIRMED, timestamp = utc_at (hours 11)\<rparr>,
      \<lparr>data = 3, source = FSIN, timestamp = utc_at (hours 10)\<rparr>]"







section \<open>The tables\<close>

lemma bind_result_Inr: "bind_result (Inr x) f = f x"
  by (simp add: bind_result_def)

lemma UNIV_DataSource: "UNIV = {FSIN, ROSSTAT, AUDIT_RU, MANUAL_CONFIRMED, MANUAL_UNCONFIRMED}"
  using DataSource.exhaust by auto

lemma UNIV_ConfirmationStatus:
  "UNIV = {CONFIRMED, STATUS_MANUAL_CONFIRMED, STATUS_MANUAL_UNCONFIRMED}"
  using ConfirmationStatus.exhaust by auto

lemma hierarchy_priority_values:
  "get_hierarchy_priority FSIN = Inr 0"
  "get_hierarchy_priority ROSSTAT = Inr 1"
  "get_hierarchy_priority AUDIT_RU = Inr 2"
  "get_hierarchy_priority MANUAL_CONFIRMED = Inr 3"
  "get_hierarchy_priority MANUAL_UNCONFIRMED = Inr 4"
  by (simp_all add: get_hierarchy_priority_def hierarchy_order_def)

lemma confirmation_priority_values:
  "get_confirmation_priority CONFIRMED = Inr 0"
  "get_confirmation_priority STATUS_MANUAL_CONFIRMED = Inr 1"
  "get_confirmation_priority STATUS_MANUAL_UNCONFIRMED = Inr 2"
  by (simp_all add: get_confirmation_priority_def confirmation_order_def)

lemma hierarchy_priority_total: "get_hierarchy_priority s = Inr (spec_rank s)"
  by (cases s; simp add: get_hierarchy_priority_def hierarchy_order_def)

lemma confirmation_priority_total:
  "get_confirmation_priority c = Inr (spec_confirmation_rank c)"
  by (cases c; simp add: get_confirmation_priority_def confirmation_order_def)

lemma confirmation_status_total: "get_confirmation_status s = Inr (spec_confirmation_of s)"
  by (cases s; simp add: get_confirmation_status_def SOURCE_TO_CONFIRMATION_def)

lemma confirmation_priority_of_source_total:
  "confirmation_priority_of_source s = Inr (spec_confirmation_rank (spec_confirmation_of s))"
  by (simp add: confirmation_priority_of_source_def confirmation_status_total
      confirmation_priority_total bind_result_Inr)

lemma range_hierarchy: "range get_hierarchy_priority = Inr ` {0..4}"
proof -
  have "{0..4::nat} = {0, 1, 2, 3, 4}" by auto
  then show ?thesis
    by (simp add: UNIV_DataSource hierarchy_priority_values)
qed

lemma range_confirmation: "range get_confirmation_priority = Inr ` {0..2}"
proof -
  have "{0..2::nat} = {0, 1, 2}" by auto
  then show ?thesis
    by (simp add: UNIV_ConfirmationStatus confirmation_priority_values)
qed

lemma inj_hierarchy: "inj get_hierarchy_priority"
proof (rule injI)
  fix a b assume "get_hierarchy_priority a = get_hierarchy_priority b"
  then show "a = b" by (cases a; cases b; simp add: hierarchy_priority_values)
qed

lemma inj_confirmation: "inj get_confirmation_priority"
proof (rule injI)
  fix a b assume "get_confirmation_priority a = get_confirmation_priority b"
  then show "a = b" by (cases a; cases b; simp add: confirmation_priority_values)
qed

lemma policy_monotone:
  "spec_rank a \<le> spec_rank b \<Longrightarrow>
   spec_confirmation_rank (spec_confirmation_of a) \<le> spec_confirmation_rank (spec_confirmation_of b)"
  by (cases a; cases b; simp)

lemma spec_rank_inj: "spec_rank a = spec_rank b \<Longrightarrow> a = b"
  by (cases a; cases b; simp)

lemma spec_confirmation_rank_inj: "spec_confirmation_rank a = spec_confirmation_rank b \<Longrightarrow> a = b"
  by (cases a; cases b; simp)

text \<open>
  Claim C6. For all sources \<open>a\<close>, \<open>b\<close> the comparison of sources returns -1, 0 or 1;
  it returns -1 exactly when the rank of \<open>a\<close> is below the rank of \<open>b\<close>, 1 exactly when
  it is above, and 0 exactly when \<open>a = b\<close>. The comparison of confirmation statuses does the
  same over the ranks of the statuses.
\<close>

theorem compare_trichotomy:
  "(\<exists>ra rb. get_hierarchy_priority a = Inr ra \<and> get_hierarchy_priority b = Inr rb \<and>
      compare_data_sources a b \<in> {Inr (- 1), Inr 0, Inr 1} \<and>
      (compare_data_sources a b = Inr (- 1)) = (ra < rb) \<and>
      (compare_data_sources a b = Inr 1) = (rb < ra) \<and>
      (compare_data_sources a b = Inr 0) = (a = b)) \<and>
   (\<exists>r1 r2. get_confirmation_priority s1 = Inr r1 \<and> get_confirmation_priority s2 = Inr r2 \<and>
      compare_confirmation_status s1 s2 \<in> {Inr (- 1), Inr 0, Inr 1} \<and>
      (compare_confirmation_status s1 s2 = Inr (- 1)) = (r1 < r2) \<and>
      (compare_confirmation_status s1 s2 = Inr 1) = (r2 < r1) \<and>
      (compare_confirmation_status s1 s2 = Inr 0) = (s1 = s2))"
proof
  show "\<exists>ra rb. get_hierarchy_priority a = Inr ra \<and> get_hierarchy_priority b = Inr rb \<and>
      compare_data_sources a b \<in> {Inr (- 1), Inr 0, Inr 1} \<and>
      (compare_data_sources a b = Inr (- 1)) = (ra < rb) \<and>
      (compare_data_sources a b = Inr 1) = (rb < ra) \<and>
      (compare_data_sources a b = Inr 0) = (a = b)"
    by (cases a; cases b;
        simp add: compare_data_sources_def bind_result_def hierarchy_priority_values)
next
  show "\<exists>r1 r2. get_confirmation_priority s1 = Inr r1 \<and> get_confirmation_priority s2 = Inr r2 \<and>
      compare_confirmation_status s1 s2 \<in> {Inr (- 1), Inr 0, Inr 1} \<and>
      (compare_confirmation_status s1 s2 = Inr (- 1)) = (r1 < r2) \<and>
      (compare_confirmation_status s1 s2 = Inr 1) = (r2 < r1) \<and>
      (compare_confirmation_status s1 s2 = Inr 0) = (s1 = s2)"
    by (cases s1; cases s2;
        simp add: compare_confirmation_status_def bind_result_def confirmation_priority_values)
qed

text \<open>
  Claim C7. The priority list holds each of the five sources exactly once; the rank is
  injective, its values are exactly 0..4, and rank 0 belongs to the first source of the
  hierarchy. The three statuses likewise have the ranks 0..2, rank 0 for the confirmed one.
\<close>

theorem priority_lists_are_permutations:
  "distinct hierarchy_order \<and> set hierarchy_order = UNIV \<and> length hierarchy_order = 5 \<and>
   inj get_hierarchy_priority \<and> range get_hierarchy_priority = Inr ` {0..4} \<and>
   get_hierarchy_priority FSIN = Inr 0 \<and>
   distinct confirmation_order \<and> set confirmation_order = UNIV \<and>
   length confirmation_order = 3 \<and>
   inj get_confirmation_priority \<and> range get_confirmation_priority = Inr ` {0..2} \<and>
   get_confirmation_priority CONFIRMED = Inr 0"
  using inj_hierarchy inj_confirmation range_hierarchy range_confirmation
  by (simp add: hierarchy_order_def confirmation_order_def UNIV_DataSource
      UNIV_ConfirmationStatus hierarchy_priority_values confirmation_priority_values)

section \<open>The list sort, whatever the comparison\<close>

lemma take_run_splits:
  "take_run lt d prev xs = Inr (run, rest) \<Longrightarrow> run @ rest = xs"
proof (induction xs arbitrary: prev run rest)
  case Nil
  then show ?case by simp
next
  case (Cons x xs)
  then show ?case
    by (auto split: sum.splits if_splits prod.splits)
qed

lemma mset_take_drop: "mset (take l s) + mset (drop l s) = mset s"
  by (metis append_take_drop_id mset_append)

lemma mset_insert_at: "mset (take l s @ p # drop l s) = add_mset p (mset s)"
  by (simp add: mset_take_drop)

lemma binarysort_mset:
  "binarysort lt s rest = Inr ys \<Longrightarrow> mset ys = mset s + mset rest"
proof (induction rest arbitrary: s)
  case Nil
  then show ?case by simp
next
  case (Cons p rest)
  from Cons.prems obtain l where
    l: "binarysort lt (take l s @ p # drop l s) rest = Inr ys"
    by (auto split: sum.splits)
  from Cons.IH [OF l] show ?case by (simp add: mset_take_drop)
qed

lemma list_sort_mset:
  assumes "list_sort lt xs = Inr ys"
  shows "mset ys = mset xs"
proof (cases xs)
  case Nil
  with assms show ?thesis by simp
next
  case (Cons x0 tl)
  show ?thesis
  proof (cases tl)
    case Nil
    with assms Cons show ?thesis by simp
  next
    case (Cons x1 zs)
    with \<open>xs = x0 # tl\<close> have xs: "xs = x0 # x1 # zs" by simp
    from assms obtain d run rest where
      run: "take_run lt d x1 zs = Inr (run, rest)"
      and bs: "binarysort lt (if d then rev (x0 # x1 # run) else x0 # x1 # run) rest = Inr ys"
      by (auto simp: xs split: sum.splits prod.splits)
    from take_run_splits [OF run] have zs: "run @ rest = zs" .
    from binarysort_mset [OF bs] have
      "mset ys = mset (if d then rev (x0 # x1 # run) else x0 # x1 # run) + mset rest" .
    also have "\<dots> = mset (x0 # x1 # run @ rest)" by simp
    finally show ?thesis by (simp add: xs zs)
  qed
qed

lemma list_sort_set: "list_sort lt xs = Inr ys \<Longrightarrow> set ys = set xs"
  using list_sort_mset mset_eq_setD by blast

lemma list_sort_length: "list_sort lt xs = Inr ys \<Longrightarrow> length ys = length xs"
  using list_sort_mset mset_eq_length by blast

subsection \<open>Two sorts whose comparisons agree\<close>

lemma take_run_rel:
  assumes corr: "\<And>x x' y y'. R x x' \<Longrightarrow> R y y' \<Longrightarrow> lt x y = lt' x' y'"
    and "list_all2 R xs xs'" "R prev prev'"
  shows "rel_sum (=) (rel_prod (list_all2 R) (list_all2 R))
           (take_run lt d prev xs) (take_run lt' d prev' xs')"
  using assms(2,3)
proof (induction xs xs' arbitrary: prev prev' rule: list_all2_induct)
  case Nil
  show ?case by simp
next
  case (Cons x xs x' xs')
  have same: "lt x prev = lt' x' prev'" using Cons.hyps(1) Cons.prems by (rule corr)
  show ?case
  proof (cases "lt' x' prev'")
    case (Inl e)
    then show ?thesis using same by simp
  next
    case (Inr b)
    show ?thesis
    proof (cases "b = d")
      case True
      from Cons.IH [OF Cons.hyps(1)] have
        "rel_sum (=) (rel_prod (list_all2 R) (list_all2 R))
           (take_run lt d x xs) (take_run lt' d x' xs')" .
      then show ?thesis using same Inr True Cons.hyps(1)
        by (auto simp: rel_sum.simps)
    next
      case False
      then show ?thesis using same Inr Cons.hyps by simp
    qed
  qed
qed

lemma bisect_rel:
  assumes corr: "\<And>x x' y y'. R x x' \<Longrightarrow> R y y' \<Longrightarrow> lt x y = lt' x' y'"
    and xs: "list_all2 R xs xs'" and p: "R p p'"
  shows "r \<le> length xs \<Longrightarrow> bisect lt p xs l r = bisect lt' p' xs' l r"
proof (induction "r - l" arbitrary: l r rule: less_induct)
  case less
  show ?case
  proof (cases "l < r")
    case False
    then show ?thesis by (simp add: bisect.simps)
  next
    case True
    define m where "m = l + (r - l) div 2"
    have m: "l \<le> m" "m < r" using True by (simp_all add: m_def)
    then have "m < length xs" using less.prems by simp
    then have "R (xs ! m) (xs' ! m)" using xs by (simp add: list_all2_nthD)
    with p have same: "lt p (xs ! m) = lt' p' (xs' ! m)" by (rule corr)
    have left: "bisect lt p xs l m = bisect lt' p' xs' l m"
      using m less.prems by (intro less.hyps) simp_all
    have right: "bisect lt p xs (m + 1) r = bisect lt' p' xs' (m + 1) r"
      using m less.prems by (intro less.hyps) simp_all
    show ?thesis
      using True same left right
      by (simp add: bisect.simps [of _ _ _ l r] m_def [symmetric] Let_def split: sum.splits)
  qed
qed

lemma binarysort_rel:
  assumes corr: "\<And>x x' y y'. R x x' \<Longrightarrow> R y y' \<Longrightarrow> lt x y = lt' x' y'"
    and "list_all2 R rest rest'" "list_all2 R s s'"
  shows "rel_sum (=) (list_all2 R) (binarysort lt s rest) (binarysort lt' s' rest')"
  using assms(2,3)
proof (induction rest rest' arbitrary: s s' rule: list_all2_induct)
  case Nil
  then show ?case by simp
next
  case (Cons p rest p' rest')
  have len: "length s = length s'" using Cons.prems by (rule list_all2_lengthD)
  have same: "bisect lt p s 0 (length s) = bisect lt' p' s' 0 (length s')"
    using bisect_rel [OF corr Cons.prems Cons.hyps(1), where r = "length s" and l = 0] len
    by simp
  show ?case
  proof (cases "bisect lt' p' s' 0 (length s')")
    case (Inl e)
    then show ?thesis using same by simp
  next
    case (Inr l)
    have "list_all2 R (take l s @ p # drop l s) (take l s' @ p' # drop l s')"
      using Cons.prems Cons.hyps(1)
      by (intro list_all2_appendI list_all2_takeI list_all2_dropI) simp_all
    from Cons.IH [OF this] show ?thesis using same Inr by simp
  qed
qed

lemma list_sort_rel:
  assumes corr: "\<And>x x' y y'. R x x' \<Longrightarrow> R y y' \<Longrightarrow> lt x y = lt' x' y'"
    and "list_all2 R xs xs'"
  shows "rel_sum (=) (list_all2 R) (list_sort lt xs) (list_sort lt' xs')"
proof (cases xs)
  case Nil
  then show ?thesis using assms(2) by simp
next
  case (Cons x0 tl)
  with assms(2) obtain x0' tl' where
    outer: "xs' = x0' # tl'" "R x0 x0'" "list_all2 R tl tl'"
    by (auto simp: list_all2_Cons1)
  note xs = Cons
  show ?thesis
  proof (cases tl)
    case Nil
    then show ?thesis using outer xs by simp
  next
    case (Cons x1 zs)
    with outer(3) obtain x1' zs' where
      inner: "tl' = x1' # zs'" "R x1 x1'" "list_all2 R zs zs'"
      by (auto simp: list_all2_Cons1)
    have shape: "xs = x0 # x1 # zs" "xs' = x0' # x1' # zs'"
      using xs Cons outer(1) inner(1) by simp_all
    have same: "lt x1 x0 = lt' x1' x0'" using inner(2) outer(2) by (rule corr)
    show ?thesis
    proof (cases "lt' x1' x0'")
      case (Inl e)
      then show ?thesis using same shape by simp
    next
      case (Inr d)
      note cmp = Inr
      from take_run_rel [OF corr inner(3) inner(2), where d = d]
      have runs: "rel_sum (=) (rel_prod (list_all2 R) (list_all2 R))
                    (take_run lt d x1 zs) (take_run lt' d x1' zs')" .
      show ?thesis
      proof (cases "take_run lt' d x1' zs'")
        case (Inl e)
        with runs have "take_run lt d x1 zs = Inl e" by (auto simp: rel_sum.simps)
        then show ?thesis using same cmp Inl shape by simp
      next
        case (Inr pr')
        obtain run' rest' where pr': "pr' = (run', rest')" by (cases pr')
        from runs Inr pr' obtain run rest where
          r: "take_run lt d x1 zs = Inr (run, rest)" "list_all2 R run run'"
             "list_all2 R rest rest'"
          by (auto simp: rel_sum.simps)
        have "list_all2 R (if d then rev (x0 # x1 # run) else x0 # x1 # run)
                (if d then rev (x0' # x1' # run') else x0' # x1' # run')"
          using r(2) outer(2) inner(2) by (simp add: list_all2_appendI)
        from binarysort_rel [OF corr r(3) this]
        show ?thesis using same cmp Inr pr' r(1) shape by simp
      qed
    qed
  qed
qed

lemma list_sort_cong:
  assumes "\<And>x y. x \<in> set xs \<Longrightarrow> y \<in> set xs \<Longrightarrow> lt x y = lt' x y"
  shows "list_sort lt xs = list_sort lt' xs"
proof -
  let ?R = "\<lambda>x y. x = y \<and> x \<in> set xs"
  have "list_all2 ?R xs xs" by (simp add: list_all2_same)
  moreover have "\<And>x x' y y'. ?R x x' \<Longrightarrow> ?R y y' \<Longrightarrow> lt x y = lt' x' y'"
    using assms by simp
  ultimately have "rel_sum (=) (list_all2 ?R) (list_sort lt xs) (list_sort lt' xs)"
    by (rule list_sort_rel [rotated])
  moreover have "list_all2 ?R ys zs \<Longrightarrow> ys = zs" for ys zs
    by (induction ys zs rule: list_all2_induct) simp_all
  ultimately show ?thesis by (auto simp: rel_sum.simps)
qed

lemma list_sort_map:
  assumes "\<And>x y. lt' (g x) (g y) = lt x y"
  shows "list_sort lt' (map g xs) = map_sum id (map g) (list_sort lt xs)"
proof -
  let ?R = "\<lambda>x y. y = g x"
  have "list_all2 ?R xs (map g xs)" by (simp add: list_all2_conv_all_nth)
  moreover have "\<And>x x' y y'. ?R x x' \<Longrightarrow> ?R y y' \<Longrightarrow> lt x y = lt' x' y'"
    using assms by simp
  ultimately have "rel_sum (=) (list_all2 ?R) (list_sort lt xs) (list_sort lt' (map g xs))"
    by (rule list_sort_rel [rotated])
  moreover have "list_all2 ?R ys zs \<Longrightarrow> zs = map g ys" for ys zs
    by (induction ys zs rule: list_all2_induct) simp_all
  ultimately show ?thesis by (auto simp: rel_sum.simps)
qed

subsection \<open>Where an error of the sort comes from\<close>

lemma take_run_error: "take_run lt d prev xs = Inl e \<Longrightarrow> \<exists>x y. lt x y = Inl e"
proof (induction xs arbitrary: prev)
  case Nil
  then show ?case by simp
next
  case (Cons x xs)
  show ?case
  proof (cases "lt x prev")
    case (Inl e')
    with Cons.prems show ?thesis by auto
  next
    case (Inr b)
    with Cons.prems have "b = d" "take_run lt d x xs = Inl e"
      by (auto split: if_splits sum.splits prod.splits)
    from Cons.IH [OF this(2)] show ?thesis .
  qed
qed

lemma bisect_error: "bisect lt p xs l r = Inl e \<Longrightarrow> \<exists>x y. lt x y = Inl e"
proof (induction "r - l" arbitrary: l r rule: less_induct)
  case less
  show ?case
  proof (cases "l < r")
    case False
    with less.prems show ?thesis by (simp add: bisect.simps)
  next
    case True
    define m where "m = l + (r - l) div 2"
    have m: "l \<le> m" "m < r" using True by (simp_all add: m_def)
    show ?thesis
    proof (cases "lt p (xs ! m)")
      case (Inl e')
      with less.prems True have "e' = e"
        by (simp add: bisect.simps [of _ _ _ l r] m_def [symmetric] Let_def)
      with Inl show ?thesis by blast
    next
      case (Inr b)
      show ?thesis
      proof (cases b)
        case True
        with less.prems \<open>l < r\<close> Inr have "bisect lt p xs l m = Inl e"
          by (simp add: bisect.simps [of _ _ _ l r] m_def [symmetric] Let_def)
        moreover have "m - l < r - l" using m by simp
        ultimately show ?thesis by (rule less.hyps [rotated])
      next
        case False
        with less.prems \<open>l < r\<close> Inr have "bisect lt p xs (m + 1) r = Inl e"
          by (simp add: bisect.simps [of _ _ _ l r] m_def [symmetric] Let_def)
        moreover have "r - (m + 1) < r - l" using m by simp
        ultimately show ?thesis by (rule less.hyps [rotated])
      qed
    qed
  qed
qed

lemma binarysort_error: "binarysort lt s rest = Inl e \<Longrightarrow> \<exists>x y. lt x y = Inl e"
proof (induction rest arbitrary: s)
  case Nil
  then show ?case by simp
next
  case (Cons p rest)
  show ?case
  proof (cases "bisect lt p s 0 (length s)")
    case (Inl e')
    with Cons.prems have "e' = e" by simp
    with Inl show ?thesis by (auto dest: bisect_error)
  next
    case (Inr k)
    with Cons.prems have "binarysort lt (take k s @ p # drop k s) rest = Inl e" by simp
    then show ?thesis by (rule Cons.IH)
  qed
qed

lemma list_sort_error:
  assumes "list_sort lt xs = Inl e"
  shows "\<exists>x y. lt x y = Inl e"
proof (cases xs)
  case Nil
  with assms show ?thesis by simp
next
  case (Cons x0 tl)
  note xs = Cons
  show ?thesis
  proof (cases tl)
    case Nil
    with assms xs show ?thesis by simp
  next
    case (Cons x1 zs)
    show ?thesis
    proof (cases "lt x1 x0")
      case (Inl e')
      with assms xs Cons have "e' = e" by simp
      with Inl show ?thesis by blast
    next
      case (Inr d)
      note cmp = Inr
      show ?thesis
      proof (cases "take_run lt d x1 zs")
        case (Inl e')
        with assms xs Cons cmp have "e' = e" by simp
        with Inl show ?thesis by (auto dest: take_run_error)
      next
        case (Inr pr)
        obtain run rest where pr: "pr = (run, rest)" by (cases pr)
        from assms xs Cons cmp Inr pr have
          "binarysort lt (if d then rev (x0 # x1 # run) else x0 # x1 # run) rest = Inl e"
          by simp
        then show ?thesis by (rule binarysort_error)
      qed
    qed
  qed
qed

subsection \<open>When no comparison raises\<close>

lemma take_run_pure:
  "\<exists>run rest. take_run (\<lambda>x y. Inr (R x y)) d prev xs = Inr (run, rest)"
proof (induction xs arbitrary: prev)
  case Nil
  show ?case by simp
next
  case (Cons x xs)
  from Cons [of x] obtain run rest where
    "take_run (\<lambda>x y. Inr (R x y)) d x xs = Inr (run, rest)" by blast
  then show ?case by simp
qed

lemma bisect_pure: "\<exists>k. bisect (\<lambda>x y. Inr (R x y)) p xs l r = Inr k"
proof (induction "r - l" arbitrary: l r rule: less_induct)
  case less
  show ?case
  proof (cases "l < r")
    case False
    then show ?thesis by (simp add: bisect.simps)
  next
    case True
    define m where "m = l + (r - l) div 2"
    have m: "l \<le> m" "m < r" using True by (simp_all add: m_def)
    have left: "\<exists>k. bisect (\<lambda>x y. Inr (R x y)) p xs l m = Inr k"
      using m by (intro less.hyps) simp
    have right: "\<exists>k. bisect (\<lambda>x y. Inr (R x y)) p xs (m + 1) r = Inr k"
      using m by (intro less.hyps) simp
    show ?thesis
      using True left right
      by (simp add: bisect.simps [of _ _ _ l r] m_def [symmetric] Let_def)
  qed
qed

lemma binarysort_pure: "\<exists>ys. binarysort (\<lambda>x y. Inr (R x y)) s rest = Inr ys"
proof (induction rest arbitrary: s)
  case Nil
  show ?case by simp
next
  case (Cons p rest)
  from bisect_pure [of R p s 0 "length s"] obtain k where
    k: "bisect (\<lambda>x y. Inr (R x y)) p s 0 (length s) = Inr k" by blast
  from Cons [of "take k s @ p # drop k s"] show ?case by (simp add: k)
qed

lemma list_sort_pure: "\<exists>ys. list_sort (\<lambda>x y. Inr (R x y)) xs = Inr ys"
proof (cases xs)
  case Nil
  then show ?thesis by simp
next
  case (Cons x0 tl)
  note xs = Cons
  show ?thesis
  proof (cases tl)
    case Nil
    then show ?thesis using xs by simp
  next
    case (Cons x1 zs)
    from take_run_pure [of R "R x1 x0" x1 zs] obtain run rest where
      r: "take_run (\<lambda>x y. Inr (R x y)) (R x1 x0) x1 zs = Inr (run, rest)" by blast
    from binarysort_pure [of R "if R x1 x0 then rev (x0 # x1 # run) else x0 # x1 # run" rest]
    show ?thesis using xs Cons r by simp
  qed
qed

lemma list_sort_comparable:
  assumes "\<And>x y. x \<in> set xs \<Longrightarrow> y \<in> set xs \<Longrightarrow> \<exists>b. lt x y = Inr b"
  shows "\<exists>ys. list_sort lt xs = Inr ys"
proof -
  have "list_sort lt xs = list_sort (\<lambda>x y. Inr (lt x y = Inr True)) xs"
  proof (rule list_sort_cong)
    fix x y assume "x \<in> set xs" "y \<in> set xs"
    then obtain b where "lt x y = Inr b" using assms by blast
    then show "lt x y = Inr (lt x y = Inr True)" by simp
  qed
  then show ?thesis using list_sort_pure [of "\<lambda>x y. lt x y = Inr True" xs] by simp
qed

section \<open>The list sort on a linear order of keys\<close>

lemma take_run_ascending:
  fixes f :: "'a \<Rightarrow> 'k::linorder"
  shows "take_run (\<lambda>x y. Inr (f x < f y)) False prev xs = Inr (run, rest) \<Longrightarrow>
         sorted (map f (prev # run))"
proof (induction xs arbitrary: prev run rest)
  case Nil
  then show ?case by simp
next
  case (Cons x xs)
  show ?case
  proof (cases "f x < f prev")
    case True
    with Cons.prems show ?thesis by simp
  next
    case False
    with Cons.prems obtain run' where
      r: "take_run (\<lambda>x y. Inr (f x < f y)) False x xs = Inr (run', rest)" "run = x # run'"
      by (auto split: sum.splits prod.splits)
    from Cons.IH [OF r(1)] have "sorted (map f (x # run'))" .
    with False r(2) show ?thesis by auto
  qed
qed

lemma take_run_descending:
  fixes f :: "'a \<Rightarrow> 'k::linorder"
  shows "take_run (\<lambda>x y. Inr (f x < f y)) True prev xs = Inr (run, rest) \<Longrightarrow>
         sorted_wrt (\<lambda>a b. f b < f a) (prev # run)"
proof (induction xs arbitrary: prev run rest)
  case Nil
  then show ?case by simp
next
  case (Cons x xs)
  show ?case
  proof (cases "f x < f prev")
    case False
    with Cons.prems show ?thesis by simp
  next
    case True
    with Cons.prems obtain run' where
      r: "take_run (\<lambda>x y. Inr (f x < f y)) True x xs = Inr (run', rest)" "run = x # run'"
      by (auto split: sum.splits prod.splits)
    from Cons.IH [OF r(1)] have "sorted_wrt (\<lambda>a b. f b < f a) (x # run')" .
    with True r(2) show ?thesis by auto
  qed
qed

lemma bisect_place:
  fixes f :: "'a \<Rightarrow> 'k::linorder"
  assumes srt: "sorted (map f s)"
  shows "l \<le> r \<Longrightarrow> r \<le> length s \<Longrightarrow>
         (\<forall>i<l. f (s ! i) \<le> f p) \<Longrightarrow> (\<forall>i. r \<le> i \<and> i < length s \<longrightarrow> f p < f (s ! i)) \<Longrightarrow>
         \<exists>k. bisect (\<lambda>x y. Inr (f x < f y)) p s l r = Inr k \<and> k \<le> length s \<and>
             (\<forall>i<k. f (s ! i) \<le> f p) \<and> (\<forall>i. k \<le> i \<and> i < length s \<longrightarrow> f p < f (s ! i))"
proof (induction "r - l" arbitrary: l r rule: less_induct)
  case less
  show ?case
  proof (cases "l < r")
    case False
    with less.prems(1) have "l = r" by simp
    with less.prems show ?thesis by (simp add: bisect.simps)
  next
    case True
    define m where "m = l + (r - l) div 2"
    have m: "l \<le> m" "m < r" using True by (simp_all add: m_def)
    have m_len: "m < length s" using m less.prems(2) by simp
    have mono: "\<And>i j. i \<le> j \<Longrightarrow> j < length s \<Longrightarrow> f (s ! i) \<le> f (s ! j)"
      using srt by (simp add: sorted_iff_nth_mono)
    show ?thesis
    proof (cases "f p < f (s ! m)")
      case True
      have "\<forall>i. m \<le> i \<and> i < length s \<longrightarrow> f p < f (s ! i)"
      proof (intro allI impI)
        fix i assume "m \<le> i \<and> i < length s"
        then have "f (s ! m) \<le> f (s ! i)" using mono by blast
        with True show "f p < f (s ! i)" by simp
      qed
      with m m_len less.prems(3) have
        "\<exists>k. bisect (\<lambda>x y. Inr (f x < f y)) p s l m = Inr k \<and> k \<le> length s \<and>
             (\<forall>i<k. f (s ! i) \<le> f p) \<and> (\<forall>i. k \<le> i \<and> i < length s \<longrightarrow> f p < f (s ! i))"
        by (intro less.hyps) simp_all
      then show ?thesis
        using \<open>l < r\<close> True
        by (simp add: bisect.simps [of _ _ _ l r] m_def [symmetric] Let_def)
    next
      case False
      have "\<forall>i<m + 1. f (s ! i) \<le> f p"
      proof (intro allI impI)
        fix i assume "i < m + 1"
        then have "i \<le> m" by simp
        then have "f (s ! i) \<le> f (s ! m)" using mono m_len by blast
        with False show "f (s ! i) \<le> f p" by simp
      qed
      with m less.prems(2,4) have
        "\<exists>k. bisect (\<lambda>x y. Inr (f x < f y)) p s (m + 1) r = Inr k \<and> k \<le> length s \<and>
             (\<forall>i<k. f (s ! i) \<le> f p) \<and> (\<forall>i. k \<le> i \<and> i < length s \<longrightarrow> f p < f (s ! i))"
        by (intro less.hyps) simp_all
      then show ?thesis
        using \<open>l < r\<close> False
        by (simp add: bisect.simps [of _ _ _ l r] m_def [symmetric] Let_def)
    qed
  qed
qed

lemma insert_sorted:
  fixes f :: "'a \<Rightarrow> 'k::linorder"
  assumes "sorted (map f s)" "k \<le> length s"
    and low: "\<forall>i<k. f (s ! i) \<le> f p"
    and high: "\<forall>i. k \<le> i \<and> i < length s \<longrightarrow> f p < f (s ! i)"
  shows "sorted (map f (take k s @ p # drop k s))"
    and "filter (\<lambda>x. key = f x) (take k s @ p # drop k s) = filter (\<lambda>x. key = f x) (s @ [p])"
proof -
  have A: "\<forall>x \<in> set (take k s). f x \<le> f p"
  proof
    fix x assume "x \<in> set (take k s)"
    then obtain i where "i < length (take k s)" "x = take k s ! i"
      by (auto simp: in_set_conv_nth)
    then have "i < k" "x = s ! i" by simp_all
    with low show "f x \<le> f p" by simp
  qed
  have B: "\<forall>x \<in> set (drop k s). f p < f x"
  proof
    fix x assume "x \<in> set (drop k s)"
    then obtain i where i: "i < length (drop k s)" "x = drop k s ! i"
      by (auto simp: in_set_conv_nth)
    then have "k + i < length s" "x = s ! (k + i)" using assms(2) by simp_all
    with high show "f p < f x" by simp
  qed
  have parts: "sorted (map f (take k s))" "sorted (map f (drop k s))"
    using assms(1) by (simp_all add: sorted_wrt_take sorted_wrt_drop take_map [symmetric]
        drop_map [symmetric])
  have "\<forall>x \<in> set (take k s). \<forall>y \<in> set (drop k s). f x \<le> f y"
    using A B by fastforce
  with A B parts show "sorted (map f (take k s @ p # drop k s))"
    by (auto simp: sorted_append less_imp_le)
  have none: "key = f p \<Longrightarrow> filter (\<lambda>x. key = f x) (drop k s) = []"
    using B by (auto simp: filter_empty_conv)
  have whole: "filter (\<lambda>x. key = f x) s =
               filter (\<lambda>x. key = f x) (take k s) @ filter (\<lambda>x. key = f x) (drop k s)"
    by (metis append_take_drop_id filter_append)
  show "filter (\<lambda>x. key = f x) (take k s @ p # drop k s) = filter (\<lambda>x. key = f x) (s @ [p])"
    using none whole by (cases "key = f p") simp_all
qed

lemma binarysort_linorder:
  fixes f :: "'a \<Rightarrow> 'k::linorder"
  assumes "sorted (map f s)" "mset s = mset c"
    and "\<And>key. filter (\<lambda>x. key = f x) s = filter (\<lambda>x. key = f x) c"
  shows "\<exists>ys. binarysort (\<lambda>x y. Inr (f x < f y)) s rest = Inr ys \<and> sorted (map f ys) \<and>
              mset ys = mset (c @ rest) \<and>
              (\<forall>key. filter (\<lambda>x. key = f x) ys = filter (\<lambda>x. key = f x) (c @ rest))"
  using assms
proof (induction rest arbitrary: s c)
  case Nil
  then show ?case by simp
next
  case (Cons p rest)
  have "\<exists>k. bisect (\<lambda>x y. Inr (f x < f y)) p s 0 (length s) = Inr k \<and> k \<le> length s \<and>
             (\<forall>i<k. f (s ! i) \<le> f p) \<and> (\<forall>i. k \<le> i \<and> i < length s \<longrightarrow> f p < f (s ! i))"
    by (rule bisect_place [OF Cons.prems(1)]) auto
  then obtain k where
    k: "bisect (\<lambda>x y. Inr (f x < f y)) p s 0 (length s) = Inr k" "k \<le> length s"
       "\<forall>i<k. f (s ! i) \<le> f p" "\<forall>i. k \<le> i \<and> i < length s \<longrightarrow> f p < f (s ! i)"
    by blast
  let ?s = "take k s @ p # drop k s"
  have s1: "sorted (map f ?s)" using insert_sorted(1) [OF Cons.prems(1) k(2,3,4)] .
  have s2: "mset ?s = mset (c @ [p])" using Cons.prems(2) by (simp add: mset_take_drop)
  have s3: "filter (\<lambda>x. key = f x) ?s = filter (\<lambda>x. key = f x) (c @ [p])" for key
    using insert_sorted(2) [OF Cons.prems(1) k(2,3,4), of key] Cons.prems(3) [of key] by simp
  from Cons.IH [OF s1 s2 s3] show ?case by (simp add: k(1))
qed

lemma descending_filter:
  fixes f :: "'a \<Rightarrow> 'k::linorder"
  shows "sorted_wrt (\<lambda>a b. f b < f a) c \<Longrightarrow>
         filter (\<lambda>x. key = f x) (rev c) = filter (\<lambda>x. key = f x) c"
proof (induction c)
  case Nil
  show ?case by simp
next
  case (Cons x c)
  then have below: "\<forall>y \<in> set c. f y < f x" and rest: "sorted_wrt (\<lambda>a b. f b < f a) c"
    by simp_all
  show ?case
  proof (cases "key = f x")
    case True
    with below have "filter (\<lambda>x. key = f x) c = []" by (auto simp: filter_empty_conv)
    with Cons.IH [OF rest] True show ?thesis by simp
  next
    case False
    with Cons.IH [OF rest] show ?thesis by simp
  qed
qed

lemma descending_rev_sorted:
  fixes f :: "'a \<Rightarrow> 'k::linorder"
  assumes "sorted_wrt (\<lambda>a b. f b < f a) c"
  shows "sorted (map f (rev c))"
proof -
  from assms have "sorted_wrt (\<lambda>a b. f b \<le> f a) c"
    by (rule sorted_wrt_mono_rel [rotated]) simp
  then show ?thesis by (simp add: rev_map [symmetric] sorted_wrt_rev sorted_wrt_map)
qed

lemma list_sort_linorder:
  fixes f :: "'a \<Rightarrow> 'k::linorder"
  shows "list_sort (\<lambda>x y. Inr (f x < f y)) xs = Inr (sort_key f xs)"
proof (cases xs)
  case Nil
  then show ?thesis by simp
next
  case (Cons x0 tl)
  note xs = Cons
  show ?thesis
  proof (cases tl)
    case Nil
    then show ?thesis using xs by simp
  next
    case (Cons x1 zs)
    define d where "d = (f x1 < f x0)"
    from take_run_pure [of "\<lambda>x y. f x < f y" d x1 zs] obtain run rest where
      r: "take_run (\<lambda>x y. Inr (f x < f y)) d x1 zs = Inr (run, rest)" by blast
    from take_run_splits [OF r] have zs: "run @ rest = zs" .
    define c where "c = x0 # x1 # run"
    define s where "s = (if d then rev c else c)"
    have whole: "xs = c @ rest" using xs Cons zs by (simp add: c_def)
    have s_sorted: "sorted (map f s)"
    proof (cases d)
      case True
      with r have "take_run (\<lambda>x y. Inr (f x < f y)) True x1 zs = Inr (run, rest)" by simp
      then have "sorted_wrt (\<lambda>a b. f b < f a) (x1 # run)" by (rule take_run_descending)
      with True have "sorted_wrt (\<lambda>a b. f b < f a) c" by (auto simp: c_def d_def)
      then show ?thesis using True by (simp add: s_def descending_rev_sorted)
    next
      case False
      with r have "take_run (\<lambda>x y. Inr (f x < f y)) False x1 zs = Inr (run, rest)" by simp
      then have "sorted (map f (x1 # run))" by (rule take_run_ascending)
      with False show ?thesis by (auto simp: s_def c_def d_def)
    qed
    have s_mset: "mset s = mset c" by (simp add: s_def)
    have s_filter: "filter (\<lambda>x. key = f x) s = filter (\<lambda>x. key = f x) c" for key
    proof (cases d)
      case True
      with r have "take_run (\<lambda>x y. Inr (f x < f y)) True x1 zs = Inr (run, rest)" by simp
      then have "sorted_wrt (\<lambda>a b. f b < f a) (x1 # run)" by (rule take_run_descending)
      with True have "sorted_wrt (\<lambda>a b. f b < f a) c" by (auto simp: c_def d_def)
      then show ?thesis using True by (simp add: s_def descending_filter)
    next
      case False
      then show ?thesis by (simp add: s_def)
    qed
    from binarysort_linorder [OF s_sorted s_mset s_filter, of rest] obtain ys where
      ys: "binarysort (\<lambda>x y. Inr (f x < f y)) s rest = Inr ys" "sorted (map f ys)"
          "mset ys = mset (c @ rest)"
          "\<forall>key. filter (\<lambda>x. key = f x) ys = filter (\<lambda>x. key = f x) (c @ rest)"
      by blast
    have "sort_key f xs = ys"
      using ys(2,3,4) by (intro properties_for_sort_key) (simp_all add: whole)
    moreover have "list_sort (\<lambda>x y. Inr (f x < f y)) xs = Inr ys"
      using ys(1) r xs Cons by (cases "f x1 < f x0") (simp_all add: s_def c_def d_def)
    ultimately show ?thesis by simp
  qed
qed

section \<open>The other primitives when no key raises\<close>

lemma keys_of_total: "keys_of (\<lambda>x. Inr (g x)) xs = Inr (map g xs)"
  by (induction xs) simp_all

lemma comprehension_if_total: "comprehension_if (\<lambda>x. Inr (P x)) xs = Inr (filter P xs)"
  by (induction xs) simp_all

lemma zip_keys: "zip (map g xs) xs = map (\<lambda>x. (g x, x)) xs"
  by (induction xs) simp_all

lemma min_scan_total:
  "\<exists>m. min_scan (\<lambda>x. Inr (g x)) b (g b) xs = Inr m \<and> m \<in> set (b # xs) \<and>
       (\<forall>y \<in> set (b # xs). g m \<le> g y)"
proof (induction xs arbitrary: b)
  case Nil
  show ?case by simp
next
  case (Cons x xs)
  show ?case
  proof (cases "g x < g b")
    case True
    from Cons.IH [of x] obtain m where
      m: "min_scan (\<lambda>x. Inr (g x)) x (g x) xs = Inr m" "m \<in> set (x # xs)"
         "\<forall>y \<in> set (x # xs). g m \<le> g y" by blast
    from m(3) have "g m \<le> g x" by simp
    with True have "g m \<le> g b" by simp
    with m True show ?thesis by auto
  next
    case False
    from Cons.IH [of b] obtain m where
      m: "min_scan (\<lambda>x. Inr (g x)) b (g b) xs = Inr m" "m \<in> set (b # xs)"
         "\<forall>y \<in> set (b # xs). g m \<le> g y" by blast
    from m(3) have "g m \<le> g b" by simp
    with False have "g m \<le> g x" by simp
    with m False show ?thesis by auto
  qed
qed

lemma min_by_key_total:
  assumes "xs \<noteq> []"
  shows "\<exists>m. min_by_key (\<lambda>x. Inr (g x)) xs = Inr m \<and> m \<in> set xs \<and>
             (\<forall>y \<in> set xs. g m \<le> g y)"
proof -
  from assms obtain b bs where xs: "xs = b # bs" by (cases xs) auto
  show ?thesis using min_scan_total [of g b bs] by (simp add: xs)
qed

lemma item0_hd: "xs \<noteq> [] \<Longrightarrow> item0 xs = Inr (hd xs)"
  by (cases xs) simp_all

lemma length_one: "length xs = 1 \<Longrightarrow> \<exists>x. xs = [x]"
  by (cases xs) auto

subsection \<open>Grouping\<close>

lemma map_of_add_to_group:
  "map_of (add_to_group s p g) s' =
     (if s' = s then Some (members g s @ [p]) else map_of g s')"
  by (induction g) (auto simp: members_def)

lemma keys_add_to_group: "fst ` set (add_to_group s p g) = insert s (fst ` set g)"
proof (induction g)
  case Nil
  show ?case by simp
next
  case (Cons kv g)
  obtain k v where kv: "kv = (k, v)" by (cases kv)
  show ?case using Cons.IH by (auto simp: kv)
qed

lemma members_add_to_group:
  "members (add_to_group s p g) s' = members g s' @ (if s' = s then [p] else [])"
  by (simp add: members_def map_of_add_to_group)

lemma group_points_total:
  "\<exists>g'. group_points ps g = Inr g' \<and>
        fst ` set g' = fst ` set g \<union> (spec_confirmation_of \<circ> source) ` set ps \<and>
        (\<forall>s. members g' s = members g s @ filter (\<lambda>p. spec_confirmation_of (source p) = s) ps)"
proof (induction ps arbitrary: g)
  case Nil
  show ?case by simp
next
  case (Cons p ps)
  from Cons.IH [of "add_to_group (spec_confirmation_of (source p)) p g"]
  show ?case
    by (auto simp: confirmation_status_total keys_add_to_group members_add_to_group)
qed

lemma group_of_key:
  "s \<in> fst ` set g \<Longrightarrow> group_of g s = Inr (members g s)"
  by (auto simp: group_of_def members_def map_of_eq_None_iff split: option.splits)



subsection \<open>Stable sorting\<close>




lemma sorted_hd_least:
  assumes "sorted (map f ys)" "y \<in> set ys"
  shows "f (hd ys) \<le> f y"
  using assms by (cases ys) auto

lemma hd_sort_key_Min:
  assumes "xs \<noteq> []"
  shows "f (hd (sort_key f xs)) = Min (set (map f xs))"
proof -
  let ?ys = "sort_key f xs"
  have ne: "?ys \<noteq> []" using assms by (metis length_sort length_0_conv)
  then have "hd ?ys \<in> set ?ys" by (rule hd_in_set)
  then have mem: "hd ?ys \<in> set xs" by simp
  have "\<forall>y \<in> set xs. f (hd ?ys) \<le> f y"
    using sorted_hd_least [of f ?ys] by simp
  with mem show ?thesis by (intro Min_eqI [symmetric]) auto
qed



subsection \<open>The built-in sort\<close>

lemma sorted_builtin_undecorate:
  "sorted_builtin lt (\<lambda>x. Inr (k x)) r xs =
     map_sum id (\<lambda>s. if r then rev s else s)
       (list_sort (\<lambda>a b. lt (k a) (k b)) (if r then rev xs else xs))"
proof -
  let ?g = "\<lambda>x. (k x, x)"
  let ?ys = "if r then rev xs else xs"
  have pairs: "(if r then rev (zip (map k xs) xs) else zip (map k xs) xs) = map ?g ?ys"
    by (simp add: zip_keys rev_map)
  have sorted_pairs:
    "list_sort (\<lambda>a b. lt (fst a) (fst b)) (map ?g ?ys) =
       map_sum id (map ?g) (list_sort (\<lambda>a b. lt (k a) (k b)) ?ys)"
    by (rule list_sort_map) simp
  show ?thesis
  proof (cases "list_sort (\<lambda>a b. lt (k a) (k b)) ?ys")
    case (Inl e)
    then show ?thesis
      by (simp only: sorted_builtin_def keys_of_total bind_result_Inr pairs sorted_pairs)
         (simp add: bind_result_def)
  next
    case (Inr s)
    have "map snd (if r then rev (map ?g s) else map ?g s) = (if r then rev s else s)"
      by (simp add: rev_map [symmetric] comp_def)
    with Inr show ?thesis
      by (simp only: sorted_builtin_def keys_of_total bind_result_Inr pairs sorted_pairs)
         (simp add: bind_result_def)
  qed
qed

lemma sorted_by_priority:
  fixes g :: "'a \<Rightarrow> nat"
  shows "sorted_builtin int_lt (\<lambda>x. Inr (g x)) False xs = Inr (sort_key g xs)"
proof -
  have "list_sort (\<lambda>a b. int_lt (g a) (g b)) xs = Inr (sort_key g xs)"
    unfolding int_lt_def by (rule list_sort_linorder)
  then show ?thesis by (simp add: sorted_builtin_undecorate)
qed

section \<open>The comparison of timestamps\<close>

lemma datetime_lt_error: "datetime_lt x y = Inl e \<Longrightarrow> e = NaiveAwareComparison"
  by (auto simp: datetime_lt_def split: if_splits option.splits)

lemma datetime_lt_self: "datetime_lt x x = Inr False"
  by (simp add: datetime_lt_def)


lemma comparableD:
  "comparable ts \<Longrightarrow> x \<in> set ts \<Longrightarrow> y \<in> set ts \<Longrightarrow> \<exists>b. datetime_lt x y = Inr b"
  unfolding comparable_def by (fastforce split: sum.splits)





section \<open>The selection step by step\<close>

lemma best_group_holds_best_rank:
  assumes ne: "dps \<noteq> []"
    and b_st: "b \<in> status_of ` set dps"
    and least: "\<forall>y \<in> set dps. spec_confirmation_rank b \<le> spec_confirmation_rank (status_of y)"
  shows "filter (\<lambda>p. spec_rank (source p) =
            Min (set (map (spec_rank \<circ> source) (filter (\<lambda>p. status_of p = b) dps))))
            (filter (\<lambda>p. status_of p = b) dps)
         = filter (\<lambda>p. spec_rank (source p) = Min (set (map (spec_rank \<circ> source) dps))) dps"
proof -
  let ?rk = "\<lambda>p::'a data_point. spec_rank (source p)"
  define C where "C = filter (\<lambda>p. status_of p = b) dps"
  define M where "M = Min (set (map (spec_rank \<circ> source) dps))"
  have "M \<in> set (map (spec_rank \<circ> source) dps)"
    unfolding M_def using ne by (intro Min_in) auto
  then obtain g where g: "g \<in> set dps" "?rk g = M" by auto
  have M_least: "\<And>y. y \<in> set dps \<Longrightarrow> M \<le> ?rk y"
    unfolding M_def by (intro Min_le) auto
  from b_st obtain y0 where y0: "y0 \<in> set dps" "status_of y0 = b" by auto
  have "spec_confirmation_rank (status_of g) \<le> spec_confirmation_rank (status_of y0)"
    unfolding status_of_def using M_least [OF y0(1)] g(2) by (intro policy_monotone) simp
  moreover have "spec_confirmation_rank b \<le> spec_confirmation_rank (status_of g)"
    using least g(1) by blast
  ultimately have "spec_confirmation_rank (status_of g) = spec_confirmation_rank b"
    using y0(2) by simp
  then have g_st: "status_of g = b" by (rule spec_confirmation_rank_inj)
  then have g_C: "g \<in> set C" using g(1) by (simp add: C_def)
  have "Min (set (map (spec_rank \<circ> source) C)) = M"
  proof (rule Min_eqI)
    show "finite (set (map (spec_rank \<circ> source) C))" by simp
    show "M \<in> set (map (spec_rank \<circ> source) C)" using g_C g(2) by force
    fix r assume "r \<in> set (map (spec_rank \<circ> source) C)"
    then obtain y where "y \<in> set C" "r = ?rk y" by auto
    then show "M \<le> r" using M_least by (simp add: C_def)
  qed
  moreover have "filter (\<lambda>p. ?rk p = M) C = filter (\<lambda>p. ?rk p = M) dps"
  proof -
    have "\<And>p. ?rk p = M \<Longrightarrow> status_of p = b"
    proof -
      fix p :: "'a data_point" assume "?rk p = M"
      then have "source p = source g" using g(2) by (intro spec_rank_inj) simp
      then show "status_of p = b" using g_st by (simp add: status_of_def)
    qed
    then show ?thesis unfolding C_def by (auto simp: filter_filter intro!: filter_cong)
  qed
  ultimately show ?thesis unfolding C_def M_def by simp
qed

lemma select_tail:
  assumes "C \<noteq> []"
  shows "(if length C = 1 then item0 C
          else
            bind_result (sorted_builtin int_lt source_priority_of False C)
              (\<lambda>source_priority_candidates.
            bind_result (item0 source_priority_candidates) (\<lambda>top.
            bind_result (source_priority_of top) (\<lambda>best_source_priority.
            bind_result
              (comprehension_if
                 (\<lambda>candidate.
                    bind_result (source_priority_of candidate)
                      (\<lambda>p. Inr (p = best_source_priority)))
                 source_priority_candidates)
              (\<lambda>best_source_candidates.
                if length best_source_candidates = 1 then item0 best_source_candidates
                else
                  bind_result
                    (sorted_builtin datetime_lt (\<lambda>x. Inr (timestamp x)) True
                       best_source_candidates)
                    (\<lambda>final_candidates. item0 final_candidates))))))
         = pick_latest (filter (\<lambda>p. spec_rank (source p) =
               Min (set (map (spec_rank \<circ> source) C))) C)"
proof -
  let ?rk = "\<lambda>p::'a data_point. spec_rank (source p)"
  define m where "m = Min (set (map (spec_rank \<circ> source) C))"
  define B where "B = filter (\<lambda>p. ?rk p = m) C"
  let ?S = "sort_key ?rk C"
  have spo: "source_priority_of = (\<lambda>x::'a data_point. Inr (?rk x))"
    by (rule ext) (simp add: source_priority_of_def hierarchy_priority_total)
  have m_in: "m \<in> set (map (spec_rank \<circ> source) C)"
    unfolding m_def using assms by (intro Min_in) auto
  then have B_ne: "B \<noteq> []" by (auto simp: B_def filter_empty_conv)
  have S_ne: "?S \<noteq> []" using assms by (metis length_sort length_0_conv)
  have top: "?rk (hd ?S) = m"
    using hd_sort_key_Min [OF assms, of ?rk] by (simp add: comp_def m_def)
  have stable: "filter (\<lambda>p. ?rk p = m) ?S = B"
    unfolding B_def by (rule sort_key_stable)
  have goal: "(if length C = 1 then item0 C
          else
            bind_result (sorted_builtin int_lt source_priority_of False C)
              (\<lambda>source_priority_candidates.
            bind_result (item0 source_priority_candidates) (\<lambda>top.
            bind_result (source_priority_of top) (\<lambda>best_source_priority.
            bind_result
              (comprehension_if
                 (\<lambda>candidate.
                    bind_result (source_priority_of candidate)
                      (\<lambda>p. Inr (p = best_source_priority)))
                 source_priority_candidates)
              (\<lambda>best_source_candidates.
                if length best_source_candidates = 1 then item0 best_source_candidates
                else
                  bind_result
                    (sorted_builtin datetime_lt (\<lambda>x. Inr (timestamp x)) True
                       best_source_candidates)
                    (\<lambda>final_candidates. item0 final_candidates))))))
         = pick_latest B"
  proof (cases "length C = 1")
    case True
    then obtain c where c: "C = [c]" using length_one by blast
    have "B = [c]" using B_ne by (auto simp: B_def c split: if_splits)
    then show ?thesis by (simp add: c pick_latest_def)
  next
    case False
    then show ?thesis
      by (simp add: spo sorted_by_priority bind_result_Inr item0_hd [OF S_ne]
          comprehension_if_total top stable pick_latest_def)
  qed
  then show ?thesis unfolding B_def m_def .
qed

lemma select_is_pick_latest:
  assumes "dps \<noteq> []"
  shows "select_most_relevant_data dps =
           pick_latest (filter (\<lambda>p. spec_rank (source p) =
              Min (set (map (spec_rank \<circ> source) dps))) dps)"
proof -
  from group_points_total [of dps "[]"] obtain G where
    G: "group_points dps [] = Inr G"
    and keys: "fst ` set G = status_of ` set dps"
    and mem: "\<And>s. members G s = filter (\<lambda>p. status_of p = s) dps"
    by (auto simp: members_def status_of_def comp_def image_image)
  have keys_ne: "map fst G \<noteq> []" using keys assms by auto
  have gcp: "get_confirmation_priority = (\<lambda>c. Inr (spec_confirmation_rank c))"
    by (rule ext) (rule confirmation_priority_total)
  from min_by_key_total [OF keys_ne, of spec_confirmation_rank] obtain b where
    b: "min_by_key get_confirmation_priority (map fst G) = Inr b"
    and b_in: "b \<in> set (map fst G)"
    and b_min: "\<forall>y \<in> set (map fst G). spec_confirmation_rank b \<le> spec_confirmation_rank y"
    unfolding gcp by blast
  from b_in have b_key: "b \<in> fst ` set G" by simp
  then have b_st: "b \<in> status_of ` set dps" using keys by simp
  define C where "C = filter (\<lambda>p. status_of p = b) dps"
  have grp: "group_of G b = Inr C"
    using group_of_key [OF b_key] by (simp add: mem C_def)
  have C_ne: "C \<noteq> []" using b_st by (auto simp: C_def filter_empty_conv)
  have least: "\<forall>y \<in> set dps. spec_confirmation_rank b \<le> spec_confirmation_rank (status_of y)"
    using b_min keys by auto
  have "select_most_relevant_data dps =
          pick_latest (filter (\<lambda>p. spec_rank (source p) =
               Min (set (map (spec_rank \<circ> source) C))) C)"
    by (simp only: select_most_relevant_data_def assms if_False G b grp bind_result_Inr
        select_tail [OF C_ne])
  then show ?thesis
    unfolding C_def best_group_holds_best_rank [OF assms b_st least] .
qed

lemma top_ranked_least:
  "top_ranked dps =
     filter (\<lambda>p. spec_rank (source p) = Min (set (map (spec_rank \<circ> source) dps))) dps"
proof -
  have outranks: "compare_data_sources a b \<noteq> Inr 1 \<longleftrightarrow> spec_rank a \<le> spec_rank b" for a b
    by (simp add: compare_data_sources_def hierarchy_priority_total bind_result_Inr)
  have "(\<forall>q \<in> set dps. spec_rank (source p) \<le> spec_rank (source q)) \<longleftrightarrow>
        spec_rank (source p) = Min (set (map (spec_rank \<circ> source) dps))"
    if "p \<in> set dps" for p
  proof
    assume least: "\<forall>q \<in> set dps. spec_rank (source p) \<le> spec_rank (source q)"
    show "spec_rank (source p) = Min (set (map (spec_rank \<circ> source) dps))"
      using that least by (intro Min_eqI [symmetric]) auto
  next
    assume "spec_rank (source p) = Min (set (map (spec_rank \<circ> source) dps))"
    then show "\<forall>q \<in> set dps. spec_rank (source p) \<le> spec_rank (source q)"
      by (auto intro!: Min_le)
  qed
  then show ?thesis
    unfolding top_ranked_def by (auto simp: outranks intro!: filter_cong)
qed

lemma top_ranked_nonempty: "dps \<noteq> [] \<Longrightarrow> top_ranked dps \<noteq> []"
proof -
  assume "dps \<noteq> []"
  then have "Min (set (map (spec_rank \<circ> source) dps)) \<in> set (map (spec_rank \<circ> source) dps)"
    by (intro Min_in) auto
  then show ?thesis by (auto simp: top_ranked_least filter_empty_conv)
qed

lemma select_on_top_ranked:
  "dps \<noteq> [] \<Longrightarrow> select_most_relevant_data dps = pick_latest (top_ranked dps)"
  by (simp add: select_is_pick_latest top_ranked_least)


subsection \<open>The last steps\<close>

lemma pick_latest_unfold:
  "pick_latest B =
     (if length B = 1 then item0 B
      else
        (case list_sort (\<lambda>a b. datetime_lt (timestamp a) (timestamp b)) (rev B) of
           Inl e \<Rightarrow> Inl e
         | Inr s \<Rightarrow> item0 (rev s)))"
  by (simp add: pick_latest_def sorted_builtin_undecorate bind_result_def map_sum_def
      split: sum.splits)

lemma pick_latest_member:
  assumes "pick_latest B = Inr w"
  shows "w \<in> set B"
proof (cases "length B = 1")
  case True
  then obtain c where "B = [c]" using length_one by blast
  with assms show ?thesis by (simp add: pick_latest_unfold)
next
  case False
  with assms obtain s where
    s: "list_sort (\<lambda>a b. datetime_lt (timestamp a) (timestamp b)) (rev B) = Inr s"
       "item0 (rev s) = Inr w"
    by (auto simp: pick_latest_unfold split: sum.splits)
  from s(2) have "w \<in> set (rev s)" by (cases "rev s") auto
  with list_sort_set [OF s(1)] show ?thesis by simp
qed

lemma pick_latest_error:
  assumes "pick_latest B = Inl e" "B \<noteq> []"
  shows "e = NaiveAwareComparison"
proof (cases "length B = 1")
  case True
  then obtain c where "B = [c]" using length_one by blast
  with assms show ?thesis by (simp add: pick_latest_unfold)
next
  case False
  show ?thesis
  proof (cases "list_sort (\<lambda>a b. datetime_lt (timestamp a) (timestamp b)) (rev B)")
    case (Inl e')
    with assms(1) False have "e' = e" by (simp add: pick_latest_unfold)
    with list_sort_error [OF Inl] show ?thesis by (auto dest: datetime_lt_error)
  next
    case (Inr s)
    from list_sort_length [OF Inr] assms(2) have "rev s \<noteq> []" by auto
    then obtain w where "item0 (rev s) = Inr w" by (cases "rev s") auto
    with assms(1) False Inr show ?thesis by (simp add: pick_latest_unfold)
  qed
qed

lemma pick_latest_comparable:
  assumes "comparable (map timestamp B)" "B \<noteq> []"
  shows "\<exists>w. pick_latest B = Inr w"
proof (cases "length B = 1")
  case True
  then obtain c where "B = [c]" using length_one by blast
  then show ?thesis by (simp add: pick_latest_unfold)
next
  case False
  have "\<exists>s. list_sort (\<lambda>a b. datetime_lt (timestamp a) (timestamp b)) (rev B) = Inr s"
  proof (rule list_sort_comparable)
    fix x y assume "x \<in> set (rev B)" "y \<in> set (rev B)"
    then have "timestamp x \<in> set (map timestamp B)" "timestamp y \<in> set (map timestamp B)"
      by simp_all
    with assms(1) show "\<exists>b. datetime_lt (timestamp x) (timestamp y) = Inr b"
      by (rule comparableD)
  qed
  then obtain s where
    s: "list_sort (\<lambda>a b. datetime_lt (timestamp a) (timestamp b)) (rev B) = Inr s" by blast
  from list_sort_length [OF s] assms(2) have "rev s \<noteq> []" by auto
  then obtain w where "item0 (rev s) = Inr w" by (cases "rev s") auto
  with False s show ?thesis by (simp add: pick_latest_unfold)
qed


lemma pick_latest_copies:
  assumes "B \<noteq> []" "\<forall>p \<in> set B. p = x"
  shows "pick_latest B = Inr x"
proof -
  have "comparable (map timestamp B)"
    unfolding comparable_def
  proof (intro ballI)
    fix t u assume "t \<in> set (map timestamp B)" "u \<in> set (map timestamp B)"
    with assms(2) have "t = timestamp x" "u = timestamp x" by auto
    then show "case datetime_lt t u of Inl e \<Rightarrow> False | Inr b \<Rightarrow> True"
      by (simp add: datetime_lt_self)
  qed
  from pick_latest_comparable [OF this assms(1)] obtain w where w: "pick_latest B = Inr w"
    by blast
  from pick_latest_member [OF w] assms(2) have "w = x" by blast
  with w show ?thesis by simp
qed

lemma pick_latest_payload:
  "pick_latest (map (with_payload h) B) = map_sum id (with_payload h) (pick_latest B)"
proof -
  let ?g = "with_payload h"
  let ?lt = "\<lambda>a b. datetime_lt (timestamp a) (timestamp b)"
  have same: "list_sort ?lt (map ?g (rev B)) = map_sum id (map ?g) (list_sort ?lt (rev B))"
    by (rule list_sort_map) (simp add: with_payload_def)
  show ?thesis
  proof (cases "length B = 1")
    case True
    then obtain c where "B = [c]" using length_one by blast
    then show ?thesis by (simp add: pick_latest_unfold)
  next
    case False
    show ?thesis
    proof (cases "list_sort ?lt (rev B)")
      case (Inl e)
      with False same show ?thesis by (simp add: pick_latest_unfold rev_map)
    next
      case (Inr s)
      have "item0 (map ?g (rev s)) = map_sum id ?g (item0 (rev s))"
        by (cases "rev s") simp_all
      with False same Inr show ?thesis by (simp add: pick_latest_unfold rev_map)
    qed
  qed
qed

lemma select_payload:
  "select_most_relevant_data (map (with_payload h) dps) =
     map_sum id (with_payload h) (select_most_relevant_data dps)"
proof (cases "dps = []")
  case True
  then show ?thesis by (simp add: select_most_relevant_data_def)
next
  case False
  have "top_ranked (map (with_payload h) dps) = map (with_payload h) (top_ranked dps)"
    by (simp add: top_ranked_least filter_map comp_def with_payload_def)
  with False show ?thesis by (simp add: select_on_top_ranked pick_latest_payload)
qed

lemma with_payload_nth:
  assumes "map source xs = map source ys" "map timestamp xs = map timestamp ys"
  shows "xs = map (with_payload fst)
                (map2 (\<lambda>x y. \<lparr>data = (data x, data y), source = source x,
                               timestamp = timestamp x\<rparr>) xs ys)"
    and "ys = map (with_payload snd)
                (map2 (\<lambda>x y. \<lparr>data = (data x, data y), source = source x,
                               timestamp = timestamp x\<rparr>) xs ys)"
proof -
  from assms(1) have len: "length xs = length ys" by (metis length_map)
  have src: "source (xs ! i) = source (ys ! i)" if "i < length xs" for i
    using assms(1) that len by (metis nth_map)
  have ts: "timestamp (xs ! i) = timestamp (ys ! i)" if "i < length xs" for i
    using assms(2) that len by (metis nth_map)
  show "xs = map (with_payload fst)
                (map2 (\<lambda>x y. \<lparr>data = (data x, data y), source = source x,
                               timestamp = timestamp x\<rparr>) xs ys)"
    using len by (intro nth_equalityI) (simp_all add: with_payload_def)
  show "ys = map (with_payload snd)
                (map2 (\<lambda>x y. \<lparr>data = (data x, data y), source = source x,
                               timestamp = timestamp x\<rparr>) xs ys)"
    using len src ts by (intro nth_equalityI) (simp_all add: with_payload_def)
qed

subsection \<open>What the selection returns\<close>

lemma select_result:
  assumes "select_most_relevant_data dps = Inr w"
  shows "w \<in> set dps \<and> (\<forall>y \<in> set dps. spec_rank (source w) \<le> spec_rank (source y))"
proof -
  have ne: "dps \<noteq> []" using assms by (auto simp: select_most_relevant_data_def)
  from assms have "pick_latest (top_ranked dps) = Inr w"
    by (simp add: select_on_top_ranked [OF ne])
  then have "w \<in> set (top_ranked dps)" by (rule pick_latest_member)
  then have mem: "w \<in> set dps"
    and rk: "spec_rank (source w) = Min (set (map (spec_rank \<circ> source) dps))"
    by (simp_all add: top_ranked_least)
  have "\<forall>y \<in> set dps. Min (set (map (spec_rank \<circ> source) dps)) \<le> spec_rank (source y)"
    by (auto intro!: Min_le)
  with mem rk show ?thesis by simp
qed

lemma select_succeeds:
  assumes "dps \<noteq> []" "comparable (map timestamp (top_ranked dps))"
  shows "\<exists>w. select_most_relevant_data dps = Inr w"
  using pick_latest_comparable [OF assms(2) top_ranked_nonempty [OF assms(1)]]
  by (simp add: select_on_top_ranked [OF assms(1)])

lemma select_error:
  assumes "select_most_relevant_data dps = Inl e"
  shows "if dps = [] then e = EmptyInput else e = NaiveAwareComparison"
proof (cases "dps = []")
  case True
  with assms show ?thesis by (simp add: select_most_relevant_data_def)
next
  case False
  from assms have "pick_latest (top_ranked dps) = Inl e"
    by (simp add: select_on_top_ranked [OF False])
  from pick_latest_error [OF this top_ranked_nonempty [OF False]] False
  show ?thesis by simp
qed


subsection \<open>The examples\<close>

lemma test_data_selected:
  "select_most_relevant_data test_data =
     Inr \<lparr>data = 150, source = FSIN, timestamp = naive_at (hours 8)\<rparr>"
  by code_simp

lemma tied_data_selected:
  "select_most_relevant_data tied_data =
     Inr \<lparr>data = 2, source = ROSSTAT, timestamp = naive_at (hours 7)\<rparr>"
  by code_simp


lemma test_data_comparable: "comparable (map timestamp (top_ranked test_data))"
  by code_simp




section \<open>Properties of the selection\<close>

text \<open>
  Claim C1, as the code has it. Whatever the selection returns is one of the points of the
  input, as it is. It returns (every function of the model is total, and the result is not
  an error) for every non-empty input in which the timestamps of the points of the best
  source rank can be compared with each other.
\<close>

theorem select_returns_member_when_comparable:
  "(select_most_relevant_data dps = Inr w \<longrightarrow> w \<in> set dps) \<and>
   (dps \<noteq> [] \<and> comparable (map timestamp (top_ranked dps)) \<longrightarrow>
      (\<exists>v \<in> set dps. select_most_relevant_data dps = Inr v))"
proof (intro conjI impI)
  assume "select_most_relevant_data dps = Inr w"
  then show "w \<in> set dps" using select_result by blast
next
  assume "dps \<noteq> [] \<and> comparable (map timestamp (top_ranked dps))"
  then obtain v where v: "select_most_relevant_data dps = Inr v"
    using select_succeeds by blast
  with select_result [OF v] show "\<exists>v \<in> set dps. select_most_relevant_data dps = Inr v"
    by blast
qed

theorem select_returns_member_when_comparable_witness:
  "test_data \<noteq> [] \<and> comparable (map timestamp (top_ranked test_data)) \<and>
   select_most_relevant_data test_data = Inr (test_data ! 2) \<and>
   test_data ! 2 \<in> set test_data"
proof -
  have ne: "test_data \<noteq> []" by (simp add: test_data_def)
  have third: "test_data ! 2 = \<lparr>data = 150, source = FSIN, timestamp = naive_at (hours 8)\<rparr>"
    by (simp add: test_data_def)
  have sel: "select_most_relevant_data test_data = Inr (test_data ! 2)"
    by (simp only: third test_data_selected)
  from select_returns_member_when_comparable [of test_data "test_data ! 2"] sel
  have "test_data ! 2 \<in> set test_data" by blast
  with ne test_data_comparable sel show ?thesis by blast
qed

text \<open>
  Without that condition the selection can raise: on two points of one source, one with a
  naive and one with an aware timestamp, it ends with the \<open>TypeError\<close> of the
  comparison and returns no point.
\<close>

theorem select_raises_on_naive_and_aware:
  "mixed_data \<noteq> [] \<and> select_most_relevant_data mixed_data = Inl NaiveAwareComparison"
  by code_simp

text \<open>
  Claim C2. On the empty list the selection fails with \<open>EmptyInput\<close>; it returns
  no value.
\<close>

theorem select_empty_fails: "select_most_relevant_data [] = Inl EmptyInput"
  by (simp add: select_most_relevant_data_def)

text \<open>
  Claim C3. The point that the selection returns is a point of the input whose
  confirmation status has the least rank of the statuses in the input. In particular a
  point whose status is strictly better than the status of every other point is returned,
  whatever its timestamp and its source, also when the other timestamps could not be
  compared with it. And the selection returns a point for every non-empty input in which
  the timestamps of the points of the best source rank can be compared with each other.
\<close>

theorem best_confirmation_group_wins:
  "(select_most_relevant_data dps = Inr w \<longrightarrow>
      w \<in> set dps \<and>
      (\<exists>rw. confirmation_priority_of_source (source w) = Inr rw \<and>
         (\<forall>y \<in> set dps. \<exists>ry. confirmation_priority_of_source (source y) = Inr ry \<and> rw \<le> ry))) \<and>
   (\<forall>x \<in> set dps.
      (\<forall>y \<in> set dps. y \<noteq> x \<longrightarrow>
         (\<exists>rx ry. confirmation_priority_of_source (source x) = Inr rx \<and>
                  confirmation_priority_of_source (source y) = Inr ry \<and> rx < ry))
      \<longrightarrow> select_most_relevant_data dps = Inr x) \<and>
   (dps \<noteq> [] \<and> comparable (map timestamp (top_ranked dps)) \<longrightarrow>
      (\<exists>v. select_most_relevant_data dps = Inr v))"
proof (intro conjI impI ballI)
  let ?cr = "\<lambda>p::'a data_point. spec_confirmation_rank (spec_confirmation_of (source p))"
  have rank_of: "\<And>p::'a data_point. confirmation_priority_of_source (source p) = Inr (?cr p)"
    by (rule confirmation_priority_of_source_total)
  {
    assume "select_most_relevant_data dps = Inr w"
    from select_result [OF this] have
      w: "w \<in> set dps" "\<forall>y \<in> set dps. spec_rank (source w) \<le> spec_rank (source y)"
      by simp_all
    show "w \<in> set dps" by (rule w(1))
    have "\<forall>y \<in> set dps. ?cr w \<le> ?cr y" using w(2) policy_monotone by blast
    then show "\<exists>rw. confirmation_priority_of_source (source w) = Inr rw \<and>
         (\<forall>y \<in> set dps. \<exists>ry. confirmation_priority_of_source (source y) = Inr ry \<and> rw \<le> ry)"
      using rank_of by blast
  }
  {
    fix x assume x: "x \<in> set dps"
      and dom: "\<forall>y \<in> set dps. y \<noteq> x \<longrightarrow>
         (\<exists>rx ry. confirmation_priority_of_source (source x) = Inr rx \<and>
                  confirmation_priority_of_source (source y) = Inr ry \<and> rx < ry)"
    have ne: "dps \<noteq> []" using x by auto
    have strict: "?cr x < ?cr y" if "y \<in> set dps" "y \<noteq> x" for y
    proof -
      from dom that obtain rx ry where
        "confirmation_priority_of_source (source x) = Inr rx"
        "confirmation_priority_of_source (source y) = Inr ry" "rx < ry" by blast
      then show ?thesis by (simp add: rank_of)
    qed
    have "\<forall>p \<in> set (top_ranked dps). p = x"
    proof
      fix p assume "p \<in> set (top_ranked dps)"
      then have p: "p \<in> set dps"
        and "spec_rank (source p) = Min (set (map (spec_rank \<circ> source) dps))"
        by (simp_all add: top_ranked_least)
      then have "spec_rank (source p) \<le> spec_rank (source x)"
        using x by (auto intro!: Min_le)
      then have "?cr p \<le> ?cr x" by (rule policy_monotone)
      with strict [OF p] show "p = x" by force
    qed
    from pick_latest_copies [OF top_ranked_nonempty [OF ne] this]
    show "select_most_relevant_data dps = Inr x"
      by (simp add: select_on_top_ranked [OF ne])
  }
  {
    assume "dps \<noteq> [] \<and> comparable (map timestamp (top_ranked dps))"
    then show "\<exists>v. select_most_relevant_data dps = Inr v" using select_succeeds by blast
  }
qed

theorem best_confirmation_group_wins_witness:
  "manual_data \<noteq> [] \<and>
   manual_data ! 1 \<in> set manual_data \<and>
   select_most_relevant_data manual_data = Inr (manual_data ! 1)"
proof -
  let ?x = "manual_data ! 1"
  have ne: "manual_data \<noteq> []" by (simp add: manual_data_def)
  have mem: "?x \<in> set manual_data" by (simp add: manual_data_def)
  have "\<forall>y \<in> set manual_data. y \<noteq> ?x \<longrightarrow>
          (\<exists>rx ry. confirmation_priority_of_source (source ?x) = Inr rx \<and>
                   confirmation_priority_of_source (source y) = Inr ry \<and> rx < ry)"
    by (simp add: manual_data_def confirmation_priority_of_source_total)
  with best_confirmation_group_wins [of manual_data ?x] mem
  have "select_most_relevant_data manual_data = Inr ?x" by blast
  with ne mem show ?thesis by blast
qed







text \<open>
  Claim C8, as the code has it. For every source the rank lookup and the confirmation
  lookup succeed, and the keys of the confirmation map are all the sources, each once. So
  the failures of the lookups are never reached: the selection fails on the empty list
  with \<open>EmptyInput\<close>, on a non-empty list only with the \<open>TypeError\<close> of a comparison
  of timestamps, and not at all on a non-empty list in which the timestamps of the points
  of the best source rank can be compared with each other.
\<close>

theorem lookups_never_fail:
  "(\<exists>r. get_hierarchy_priority s = Inr r) \<and>
   (\<exists>c. get_confirmation_status s = Inr c) \<and>
   fst ` set SOURCE_TO_CONFIRMATION = UNIV \<and>
   distinct (map fst SOURCE_TO_CONFIRMATION) \<and>
   (select_most_relevant_data dps = Inl e \<longrightarrow>
      (if dps = [] then e = EmptyInput else e = NaiveAwareComparison)) \<and>
   (dps \<noteq> [] \<and> comparable (map timestamp (top_ranked dps)) \<longrightarrow>
      (\<exists>w. select_most_relevant_data dps = Inr w))"
proof -
  have "fst ` set SOURCE_TO_CONFIRMATION = UNIV"
  proof (rule set_eqI)
    fix x show "x \<in> fst ` set SOURCE_TO_CONFIRMATION \<longleftrightarrow> x \<in> UNIV"
      by (cases x; simp add: SOURCE_TO_CONFIRMATION_def)
  qed
  moreover have "distinct (map fst SOURCE_TO_CONFIRMATION)"
    by (simp add: SOURCE_TO_CONFIRMATION_def)
  moreover have "select_most_relevant_data dps = Inl e \<longrightarrow>
      (if dps = [] then e = EmptyInput else e = NaiveAwareComparison)"
    using select_error by blast
  moreover have "dps \<noteq> [] \<and> comparable (map timestamp (top_ranked dps)) \<longrightarrow>
      (\<exists>w. select_most_relevant_data dps = Inr w)"
    using select_succeeds by blast
  moreover have "\<exists>r. get_hierarchy_priority s = Inr r"
    by (simp add: hierarchy_priority_total)
  moreover have "\<exists>c. get_confirmation_status s = Inr c"
    by (simp add: confirmation_status_total)
  ultimately show ?thesis by blast
qed

theorem lookups_never_fail_witness:
  "test_data \<noteq> [] \<and> comparable (map timestamp (top_ranked test_data)) \<and>
   get_hierarchy_priority MANUAL_UNCONFIRMED = Inr 4 \<and>
   get_confirmation_status MANUAL_UNCONFIRMED = Inr STATUS_MANUAL_UNCONFIRMED \<and>
   select_most_relevant_data test_data = Inr (test_data ! 2)"
proof -
  have ne: "test_data \<noteq> []" by (simp add: test_data_def)
  have third: "test_data ! 2 = \<lparr>data = 150, source = FSIN, timestamp = naive_at (hours 8)\<rparr>"
    by (simp add: test_data_def)
  have sel: "select_most_relevant_data test_data = Inr (test_data ! 2)"
    by (simp only: third test_data_selected)
  have "get_hierarchy_priority MANUAL_UNCONFIRMED = Inr 4"
    "get_confirmation_status MANUAL_UNCONFIRMED = Inr STATUS_MANUAL_UNCONFIRMED"
    by (simp_all add: hierarchy_priority_total confirmation_status_total)
  with lookups_never_fail [of MANUAL_UNCONFIRMED test_data EmptyInput] ne
    test_data_comparable sel
  show ?thesis by blast
qed

text \<open>
  A non-empty input of the documented types on which the selection fails: two points of the
  most trusted source, one with a naive and one with an aware timestamp.
\<close>

theorem select_fails_on_typed_input:
  "mixed_data_fsin \<noteq> [] \<and>
   select_most_relevant_data mixed_data_fsin = Inl NaiveAwareComparison"
  by code_simp

text \<open>
  Claim C9. Two non-empty lists that have, position by position, the same sources and the
  same timestamps, with payloads of any two types, have the same outcome: the selection
  fails on both with the same error, or it returns on both the point at one and the same
  position. It returns, at the same position, whenever the timestamps of the points of the
  best source rank can be compared with each other.
\<close>

theorem payload_not_inspected:
  fixes xs :: "'a data_point list" and ys :: "'b data_point list"
  assumes "xs \<noteq> []"
    and "map source xs = map source ys"
    and "map timestamp xs = map timestamp ys"
  shows "((\<exists>e. select_most_relevant_data xs = Inl e \<and> select_most_relevant_data ys = Inl e) \<or>
          (\<exists>i. i < length xs \<and> i < length ys \<and>
               select_most_relevant_data xs = Inr (xs ! i) \<and>
               select_most_relevant_data ys = Inr (ys ! i))) \<and>
         (comparable (map timestamp (top_ranked xs)) \<longrightarrow>
            (\<exists>i. i < length xs \<and> i < length ys \<and>
                 select_most_relevant_data xs = Inr (xs ! i) \<and>
                 select_most_relevant_data ys = Inr (ys ! i)))"
proof -
  define ws where
    "ws = map2 (\<lambda>x y. \<lparr>data = (data x, data y), source = source x,
                         timestamp = timestamp x\<rparr>) xs ys"
  from assms(2) have len: "length xs = length ys" by (metis length_map)
  have len_ws: "length ws = length xs" using len by (simp add: ws_def)
  have xs: "xs = map (with_payload fst) ws" and ys: "ys = map (with_payload snd) ws"
    unfolding ws_def using with_payload_nth [OF assms(2,3)] by blast+
  have sel_xs: "select_most_relevant_data xs =
                  map_sum id (with_payload fst) (select_most_relevant_data ws)"
    by (subst xs) (rule select_payload)
  have sel_ys: "select_most_relevant_data ys =
                  map_sum id (with_payload snd) (select_most_relevant_data ws)"
    by (subst ys) (rule select_payload)
  have both: "(\<exists>e. select_most_relevant_data xs = Inl e \<and> select_most_relevant_data ys = Inl e) \<or>
          (\<exists>i. i < length xs \<and> i < length ys \<and>
               select_most_relevant_data xs = Inr (xs ! i) \<and>
               select_most_relevant_data ys = Inr (ys ! i))"
  proof (cases "select_most_relevant_data ws")
    case (Inl e)
    then show ?thesis by (simp add: sel_xs sel_ys)
  next
    case (Inr w)
    from select_result [OF Inr] have "w \<in> set ws" by simp
    then obtain i where i: "i < length ws" "w = ws ! i" by (auto simp: in_set_conv_nth)
    have "with_payload fst w = xs ! i" using i by (subst xs) simp
    moreover have "with_payload snd w = ys ! i" using i by (subst ys) simp
    ultimately show ?thesis using Inr i(1) len len_ws by (auto simp: sel_xs sel_ys)
  qed
  moreover have "\<exists>i. i < length xs \<and> i < length ys \<and>
                 select_most_relevant_data xs = Inr (xs ! i) \<and>
                 select_most_relevant_data ys = Inr (ys ! i)"
    if "comparable (map timestamp (top_ranked xs))"
  proof -
    from select_succeeds [OF assms(1) that] obtain v where
      "select_most_relevant_data xs = Inr v" by blast
    with both show ?thesis by auto
  qed
  ultimately show ?thesis by blast
qed

theorem payload_not_inspected_witness:
  "tied_data \<noteq> [] \<and>
   map source tied_data = map source tied_data_renamed \<and>
   map timestamp tied_data = map timestamp tied_data_renamed \<and>
   select_most_relevant_data tied_data = Inr (tied_data ! 1) \<and>
   select_most_relevant_data tied_data_renamed = Inr (tied_data_renamed ! 1)"
proof -
  have ne: "tied_data \<noteq> []" by (simp add: tied_data_def)
  have src: "map source tied_data = map source tied_data_renamed"
    by (simp add: tied_data_def tied_data_renamed_def)
  have ts: "map timestamp tied_data = map timestamp tied_data_renamed"
    by (simp add: tied_data_def tied_data_renamed_def)
  have second: "tied_data ! 1 = \<lparr>data = 2, source = ROSSTAT, timestamp = naive_at (hours 7)\<rparr>"
    by (simp add: tied_data_def)
  have sel: "select_most_relevant_data tied_data = Inr (tied_data ! 1)"
    by (simp only: second tied_data_selected)
  from payload_not_inspected [OF ne src ts] sel obtain i where
    i: "i < length tied_data" "tied_data ! 1 = tied_data ! i"
       "select_most_relevant_data tied_data_renamed = Inr (tied_data_renamed ! i)"
    by auto
  have "i < 4" using i(1) by (simp add: tied_data_def)
  with i(2) have "i = 1"
    by (cases "i = 0"; cases "i = 1"; cases "i = 2"; cases "i = 3"; simp add: tied_data_def)
  with i(3) ne src ts sel show ?thesis by simp
qed




end
